theory Spec2Isabelle
  imports Main
begin

section \<open>Data shapes of \<open>src/index.ts\<close>\<close>

text \<open>The exported types \<open>SponsorshipSponsor\<close>, \<open>SponsorshipTier\<close> and \<open>Sponsorship\<close>.
  An optional field (\<open>email?: string\<close>) is an \<open>option\<close>, \<open>None\<close> standing for
  \<open>undefined\<close>.\<close>

record SponsorshipSponsor =
  login :: string
  email :: "string option"

record SponsorshipTier =
  tier_id :: string
  tier_createdAt :: string
  name :: string
  description :: string
  monthlyPriceInCents :: int

record Sponsorship =
  sponsorship_id :: string
  createdAt :: string
  sponsor :: SponsorshipSponsor
  public :: bool
  tier :: SponsorshipTier

text \<open>The internal types \<open>QueryResult\<close> and \<open>QueryResultEdge\<close>. The declared type of
  \<open>sponsorEntity.login\<close> is \<open>string\<close>, but \<open>sponsorshipFromEdge\<close> tests it against
  \<open>null\<close> and \<open>undefined\<close>, so the field is an \<open>option\<close> here.\<close>

datatype PrivacyLevel = PUBLIC | PRIVATE

record SponsorEntity =
  typename :: string
  entity_login :: "string option"
  userEmail :: "string option"
  orgEmail :: "string option"

record QueryResultNode =
  node_id :: string
  node_createdAt :: string
  privacyLevel :: PrivacyLevel
  node_tier :: SponsorshipTier
  sponsorEntity :: "SponsorEntity option"

record QueryResultEdge =
  edge_cursor :: string
  node :: QueryResultNode

record PageInfo =
  page_hasNextPage :: bool
  endCursor :: string

record SponsorshipsAsMaintainer =
  pageInfo :: PageInfo
  edges :: "QueryResultEdge list"

record Viewer =
  sponsorshipsAsMaintainer :: SponsorshipsAsMaintainer

record QueryResult =
  viewer :: Viewer

text \<open>The \<open>RequestParameters\<close> built at the top of the loop body of \<open>find\<close>.\<close>

record Headers =
  authorization :: string

record RequestParameters =
  params_cursor :: "string option"
  headers :: Headers

section \<open>\<open>src/utils.ts\<close>\<close>

definition withdefault :: "'a \<Rightarrow> 'a option \<Rightarrow> 'a" where
  "withdefault fallback v = (case v of None \<Rightarrow> fallback | Some x \<Rightarrow> x)"

section \<open>The cache object\<close>

text \<open>\<open>this.cached\<close> is a plain JavaScript object created by the literal \<open>{}\<close>. Such an
  object has its own properties and a prototype. The prototype is \<open>Object.prototype\<close>
  until an assignment to the key \<open>__proto__\<close> replaces it: \<open>__proto__\<close> is an accessor
  of \<open>Object.prototype\<close> whose setter installs the assigned object as prototype instead
  of creating an own property. \<open>proto = None\<close> stands for \<open>Object.prototype\<close>.\<close>

record cache_object =
  own :: "string \<rightharpoonup> Sponsorship"
  proto :: "Sponsorship option"

text \<open>What an expression of \<open>find\<close> can evaluate to: \<open>null\<close>, \<open>undefined\<close>, a
  sponsorship, a field of a sponsorship that serves as prototype, or a member of the
  runtime's \<open>Object.prototype\<close> named by its key.\<close>

datatype js_value =
  Null
  | Undefined
  | Record Sponsorship
  | RecordField Sponsorship string
  | ObjectPrototypeMember string

text \<open>The string-keyed properties of \<open>Object.prototype\<close> (ECMAScript, with Annex B).\<close>

definition object_prototype_keys :: "string list" where
  "object_prototype_keys =
     [''constructor'', ''hasOwnProperty'', ''isPrototypeOf'', ''propertyIsEnumerable'',
      ''toLocaleString'', ''toString'', ''valueOf'', ''__proto__'',
      ''__defineGetter__'', ''__defineSetter__'', ''__lookupGetter__'', ''__lookupSetter__'']"

text \<open>The keys of the object literal returned by \<open>sponsorshipFromEdge\<close>.\<close>

definition sponsorship_keys :: "string list" where
  "sponsorship_keys = [''id'', ''createdAt'', ''sponsor'', ''public'', ''tier'']"

definition empty_object :: cache_object where
  "empty_object = \<lparr>own = Map.empty, proto = None\<rparr>"

text \<open>\<open>key in obj\<close>: own properties, then the prototype chain.\<close>

definition has_property :: "string \<Rightarrow> cache_object \<Rightarrow> bool" where
  "has_property k c =
     (own c k \<noteq> None
      \<or> (proto c \<noteq> None \<and> k \<in> set sponsorship_keys)
      \<or> k \<in> set object_prototype_keys)"

text \<open>\<open>obj[key]\<close>: the own property if there is one, else the first hit on the chain.\<close>

definition get_property :: "cache_object \<Rightarrow> string \<Rightarrow> js_value" where
  "get_property c k =
     (case own c k of
        Some r \<Rightarrow> Record r
      | None \<Rightarrow>
          (case proto c of
             Some p \<Rightarrow>
               if k \<in> set sponsorship_keys then RecordField p k
               else if k = ''__proto__'' then Record p
               else if k \<in> set object_prototype_keys then ObjectPrototypeMember k
               else Undefined
           | None \<Rightarrow>
               if k \<in> set object_prototype_keys then ObjectPrototypeMember k
               else Undefined))"

text \<open>\<open>obj[key] = value\<close> with an object as value.\<close>

definition set_property :: "cache_object \<Rightarrow> string \<Rightarrow> Sponsorship \<Rightarrow> cache_object" where
  "set_property c k v =
     (if k = ''__proto__'' then c\<lparr>proto := Some v\<rparr> else c\<lparr>own := (own c)(k \<mapsto> v)\<rparr>)"

section \<open>The client\<close>

record Options =
  cache :: bool

record Sponsors =
  token :: string
  options :: Options
  cached :: cache_object
  cursor :: "string option"
  hasNextPage :: bool

record SponsorsOptions =
  opts_cache :: "bool option"
  opts_token :: string

definition constructor :: "SponsorsOptions \<Rightarrow> Sponsors" where
  "constructor opts =
     \<lparr>token = opts_token opts,
      options = \<lparr>cache = withdefault True (opts_cache opts)\<rparr>,
      cached = empty_object,
      cursor = None,
      hasNextPage = True\<rparr>"

definition flush :: "Sponsors \<Rightarrow> Sponsors" where
  "flush s = s\<lparr>cached := empty_object, cursor := None, hasNextPage := True\<rparr>"

text \<open>JavaScript's \<open>a || b\<close> on optional strings: the empty string is falsy.\<close>

definition js_or :: "string option \<Rightarrow> string option \<Rightarrow> string option" where
  "js_or a b = (case a of None \<Rightarrow> b | Some x \<Rightarrow> if x = [] then b else Some x)"

text \<open>\<open>edge.node.sponsorEntity?.f\<close>\<close>

definition entity_field :: "(SponsorEntity \<Rightarrow> 'a option) \<Rightarrow> QueryResultEdge \<Rightarrow> 'a option" where
  "entity_field f edge = (case sponsorEntity (node edge) of None \<Rightarrow> None | Some e \<Rightarrow> f e)"

definition sponsorshipFromEdge :: "QueryResultEdge \<Rightarrow> Sponsorship option" where
  "sponsorshipFromEdge edge =
     (case entity_field entity_login edge of
        None \<Rightarrow> None
      | Some l \<Rightarrow>
          Some \<lparr>sponsorship_id = node_id (node edge),
                createdAt = node_createdAt (node edge),
                sponsor = \<lparr>login = l,
                           email = js_or (entity_field orgEmail edge) (entity_field userEmail edge)\<rparr>,
                public = (privacyLevel (node edge) = PUBLIC),
                tier = \<lparr>tier_id = tier_id (node_tier (node edge)),
                        tier_createdAt = tier_createdAt (node_tier (node edge)),
                        name = name (node_tier (node edge)),
                        description = description (node_tier (node edge)),
                        monthlyPriceInCents = monthlyPriceInCents (node_tier (node edge))\<rparr>\<rparr>)"

text \<open>The callback of \<open>edges.map\<close>: decode the edge and store a decoded record under
  its login.\<close>

definition cache_edge :: "cache_object \<Rightarrow> QueryResultEdge \<Rightarrow> Sponsorship option \<times> cache_object" where
  "cache_edge c edge =
     (case sponsorshipFromEdge edge of
        None \<Rightarrow> (None, c)
      | Some sp \<Rightarrow> (Some sp, set_property c (login (sponsor sp)) sp))"

fun map_edges :: "QueryResultEdge list \<Rightarrow> cache_object \<Rightarrow> Sponsorship option list \<times> cache_object" where
  "map_edges [] c = ([], c)"
| "map_edges (edge # rest) c =
     (case cache_edge c edge of
        (sp, c') \<Rightarrow> (case map_edges rest c' of (sps, c'') \<Rightarrow> (sp # sps, c'')))"

text \<open>The predicate \<open>(s) => s?.sponsor.login === login\<close>.\<close>

definition login_matches :: "string \<Rightarrow> Sponsorship option \<Rightarrow> bool" where
  "login_matches l s = (case s of None \<Rightarrow> False | Some sp \<Rightarrow> login (sponsor sp) = l)"

text \<open>\<open>sponsorship !== null && sponsorship !== undefined\<close> on the result of
  \<open>Array.prototype.find\<close> (\<open>None\<close> is \<open>undefined\<close>, \<open>Some None\<close> is \<open>null\<close>).\<close>

definition found :: "Sponsorship option option \<Rightarrow> Sponsorship option" where
  "found r = (case r of Some (Some sp) \<Rightarrow> Some sp | _ \<Rightarrow> None)"

definition request :: "Sponsors \<Rightarrow> RequestParameters" where
  "request s = \<lparr>params_cursor = cursor s, headers = \<lparr>authorization = token s\<rparr>\<rparr>"

text \<open>The loop body after the fetch (lines 115 to 134): pagination state first, then the
  cache, then the scan of this page.\<close>

definition process_page :: "string \<Rightarrow> Sponsors \<Rightarrow> QueryResult \<Rightarrow> Sponsorship option \<times> Sponsors" where
  "process_page l s result =
     (let info = pageInfo (sponsorshipsAsMaintainer (viewer result));
          s1 = s\<lparr>hasNextPage := page_hasNextPage info, cursor := Some (endCursor info)\<rparr>;
          (sponsorships, c) = map_edges (edges (sponsorshipsAsMaintainer (viewer result))) (cached s1);
          s2 = s1\<lparr>cached := c\<rparr>
      in (found (List.find (login_matches l) sponsorships), s2))"

text \<open>The \<open>while\<close> loop. \<open>graphql\<close> is the transport (\<open>octo.graphql\<close> applied to the fixed
  query): it answers a request with a page or throws. The result is \<open>None\<close> when the
  loop never ends; otherwise the outcome of the promise (\<open>Inl\<close> a rejection), the
  client afterwards, and the requests issued, oldest first.\<close>

partial_function (option) find_loop ::
  "(RequestParameters \<Rightarrow> 'e + QueryResult) \<Rightarrow> string \<Rightarrow> Sponsors \<Rightarrow> RequestParameters list
    \<Rightarrow> (('e + js_value) \<times> Sponsors \<times> RequestParameters list) option" where
  "find_loop graphql l s calls =
     (if hasNextPage s then
        (case graphql (request s) of
           Inl err \<Rightarrow> Some (Inl err, s, calls @ [request s])
         | Inr result \<Rightarrow>
             (case process_page l s result of
                (Some sp, s') \<Rightarrow> Some (Inr (Record sp), s', calls @ [request s])
              | (None, s') \<Rightarrow> find_loop graphql l s' (calls @ [request s])))
      else Some (Inr Null, s, calls))"

definition find ::
  "(RequestParameters \<Rightarrow> 'e + QueryResult) \<Rightarrow> string \<Rightarrow> Sponsors
    \<Rightarrow> (('e + js_value) \<times> Sponsors \<times> RequestParameters list) option" where
  "find graphql l s =
     (if has_property l (cached s) \<and> cache (options s)
      then Some (Inr (get_property (cached s) l), s, [])
      else find_loop graphql l s [])"

definition getInfo ::
  "(RequestParameters \<Rightarrow> 'e + QueryResult) \<Rightarrow> string \<Rightarrow> Sponsors
    \<Rightarrow> (('e + js_value) \<times> Sponsors \<times> RequestParameters list) option" where
  "getInfo graphql l s = find graphql l s"

definition isSponsor ::
  "(RequestParameters \<Rightarrow> 'e + QueryResult) \<Rightarrow> string \<Rightarrow> Sponsors
    \<Rightarrow> (('e + bool) \<times> Sponsors \<times> RequestParameters list) option" where
  "isSponsor graphql l s =
     map_option (\<lambda>(r, s', calls). (map_sum id (\<lambda>user. user \<noteq> Null) r, s', calls)) (find graphql l s)"

section \<open>Notions used to state the properties\<close>

text \<open>The decoded records of a page, in order, and whether a login occurs among them.\<close>

definition decoded :: "QueryResult \<Rightarrow> Sponsorship option list" where
  "decoded q = map sponsorshipFromEdge (edges (sponsorshipsAsMaintainer (viewer q)))"

definition appears :: "string \<Rightarrow> QueryResult \<Rightarrow> bool" where
  "appears l q = list_ex (login_matches l) (decoded q)"

text \<open>\<open>pages_from graphql tok c qs\<close>: fetching with token \<open>tok\<close> from cursor \<open>c\<close> on, the
  transport answers with the pages \<open>qs\<close> one after the other, each at the end cursor of
  the one before, and every page but the last reports a next page.\<close>

fun pages_from ::
  "(RequestParameters \<Rightarrow> 'e + QueryResult) \<Rightarrow> string \<Rightarrow> string option \<Rightarrow> QueryResult list \<Rightarrow> bool" where
  "pages_from graphql tok c [] = True"
| "pages_from graphql tok c (q # qs) =
     (graphql \<lparr>params_cursor = c, headers = \<lparr>authorization = tok\<rparr>\<rparr> = Inr q
      \<and> (qs = [] \<or> page_hasNextPage (pageInfo (sponsorshipsAsMaintainer (viewer q))))
      \<and> pages_from graphql tok (Some (endCursor (pageInfo (sponsorshipsAsMaintainer (viewer q))))) qs)"

text \<open>The position, in a list of pages, of the first page on which a login appears.\<close>

definition first_page :: "string \<Rightarrow> QueryResult list \<Rightarrow> nat" where
  "first_page l qs = length (takeWhile (\<lambda>q. \<not> appears l q) qs)"

text \<open>The pages that a list of requests fetched successfully.\<close>

fun fetched :: "(RequestParameters \<Rightarrow> 'e + QueryResult) \<Rightarrow> RequestParameters list \<Rightarrow> QueryResult list" where
  "fetched graphql [] = []"
| "fetched graphql (p # ps) =
     (case graphql p of Inl err \<Rightarrow> fetched graphql ps | Inr q \<Rightarrow> q # fetched graphql ps)"

text \<open>The record that the cache object holds under a key: the own property, or, under
  \<open>__proto__\<close>, the record installed as prototype.\<close>

definition held :: "cache_object \<Rightarrow> string \<Rightarrow> Sponsorship option" where
  "held c k =
     (case own c k of
        Some r \<Rightarrow> Some r
      | None \<Rightarrow> if k = ''__proto__'' then proto c else None)"

text \<open>Every record held by the cache object is held under its own login.\<close>

definition cache_inv :: "cache_object \<Rightarrow> bool" where
  "cache_inv c = (\<forall>k r. held c k = Some r \<longrightarrow> login (sponsor r) = k)"

text \<open>The cache after the records of further pages have been stored, page by page.\<close>

definition cache_page :: "cache_object \<Rightarrow> QueryResult \<Rightarrow> cache_object" where
  "cache_page c q = snd (map_edges (edges (sponsorshipsAsMaintainer (viewer q))) c)"

text \<open>What is held under a key after a run of decoded records has been stored, given
  what was held before: each record with that login replaces what is there.\<close>

definition stored :: "string \<Rightarrow> Sponsorship option list \<Rightarrow> Sponsorship option \<Rightarrow> Sponsorship option" where
  "stored k xs h = foldl (\<lambda>h x. if login_matches k x then x else h) h xs"

text \<open>A key that \<open>in\<close> finds on the prototype chain only: no record is held under it.\<close>

definition inherited :: "string \<Rightarrow> cache_object \<Rightarrow> bool" where
  "inherited k c = (has_property k c \<and> held c k = None)"

text \<open>The calls a program can make on a client, and a sequence of them run in order
  against one transport. The result is the client afterwards, and \<open>None\<close> when a call
  never returns. A call whose promise is rejected leaves a client that can be used
  further.\<close>

datatype operation = GetInfo string | IsSponsor string | Flush

fun perform ::
  "(RequestParameters \<Rightarrow> 'e + QueryResult) \<Rightarrow> operation \<Rightarrow> Sponsors \<Rightarrow> Sponsors option" where
  "perform graphql (GetInfo l) s = map_option (\<lambda>(r, s', calls). s') (getInfo graphql l s)"
| "perform graphql (IsSponsor l) s = map_option (\<lambda>(r, s', calls). s') (isSponsor graphql l s)"
| "perform graphql Flush s = Some (flush s)"

fun perform_all ::
  "(RequestParameters \<Rightarrow> 'e + QueryResult) \<Rightarrow> operation list \<Rightarrow> Sponsors \<Rightarrow> Sponsors option" where
  "perform_all graphql [] s = Some s"
| "perform_all graphql (x # xs) s = Option.bind (perform graphql x s) (perform_all graphql xs)"

text \<open>Cursor and flag of a client that has fetched the pages \<open>ps\<close> from cursor \<open>c\<close> on.\<close>

definition cursor_after :: "string option \<Rightarrow> QueryResult list \<Rightarrow> string option" where
  "cursor_after c ps =
     (if ps = [] then c else Some (endCursor (pageInfo (sponsorshipsAsMaintainer (viewer (last ps))))))"

definition more_after :: "QueryResult list \<Rightarrow> bool" where
  "more_after ps =
     (if ps = [] then True else page_hasNextPage (pageInfo (sponsorshipsAsMaintainer (viewer (last ps)))))"

text \<open>What holds of every client built by \<open>constructor opts\<close> and used against one
  transport: token and options are those of the construction, no own property is named
  \<open>__proto__\<close>, records are held under their logins, and the client stands behind some
  run of pages fetched from the start, all of whose records it holds.\<close>

definition client_inv ::
  "(RequestParameters \<Rightarrow> 'e + QueryResult) \<Rightarrow> SponsorsOptions \<Rightarrow> Sponsors \<Rightarrow> bool" where
  "client_inv graphql opts s =
     (token s = opts_token opts
      \<and> cache (options s) = withdefault True (opts_cache opts)
      \<and> own (cached s) ''__proto__'' = None
      \<and> cache_inv (cached s)
      \<and> (\<exists>ps. pages_from graphql (opts_token opts) None ps
            \<and> cursor s = cursor_after None ps
            \<and> hasNextPage s = more_after ps
            \<and> (\<forall>q\<in>set ps. \<forall>sp. Some sp \<in> set (decoded q)
                  \<longrightarrow> held (cached s) (login (sponsor sp)) \<noteq> None)))"

text \<open>A page with every copy of one edge taken out, and a transport that serves such
  pages.\<close>

definition remove_edge :: "QueryResultEdge \<Rightarrow> QueryResult \<Rightarrow> QueryResult" where
  "remove_edge e q =
     q\<lparr>viewer := (viewer q)\<lparr>sponsorshipsAsMaintainer :=
          (sponsorshipsAsMaintainer (viewer q))\<lparr>edges :=
             filter (\<lambda>x. x \<noteq> e) (edges (sponsorshipsAsMaintainer (viewer q)))\<rparr>\<rparr>\<rparr>"

definition without_edge ::
  "QueryResultEdge \<Rightarrow> (RequestParameters \<Rightarrow> 'e + QueryResult) \<Rightarrow> RequestParameters \<Rightarrow> 'e + QueryResult" where
  "without_edge e graphql p = map_sum id (remove_edge e) (graphql p)"

section \<open>A two-page source\<close>

text \<open>The scenario of the specification: page one holds \<open>alice\<close> and reports a next page,
  page two holds \<open>jure\<close> and reports none. Page one also carries a record whose sponsor
  entity is missing.\<close>

definition example_tier :: SponsorshipTier where
  "example_tier =
     \<lparr>tier_id = ''T1'', tier_createdAt = ''2020-01-01'', name = ''Gold'',
      description = ''gold tier'', monthlyPriceInCents = 500\<rparr>"

definition example_edge :: "string \<Rightarrow> SponsorEntity option \<Rightarrow> QueryResultEdge" where
  "example_edge i ent =
     \<lparr>edge_cursor = i,
      node = \<lparr>node_id = i, node_createdAt = ''2020-02-02'', privacyLevel = PUBLIC,
              node_tier = example_tier, sponsorEntity = ent\<rparr>\<rparr>"

definition example_user :: "string \<Rightarrow> SponsorEntity" where
  "example_user l = \<lparr>typename = ''User'', entity_login = Some l, userEmail = None, orgEmail = None\<rparr>"

definition example_page :: "QueryResultEdge list \<Rightarrow> bool \<Rightarrow> string \<Rightarrow> QueryResult" where
  "example_page es nxt c =
     \<lparr>viewer = \<lparr>sponsorshipsAsMaintainer =
        \<lparr>pageInfo = \<lparr>page_hasNextPage = nxt, endCursor = c\<rparr>, edges = es\<rparr>\<rparr>\<rparr>"

definition anonymous_edge :: QueryResultEdge where
  "anonymous_edge = example_edge ''e0'' None"

definition page_one :: QueryResult where
  "page_one =
     example_page [anonymous_edge, example_edge ''e1'' (Some (example_user ''alice''))] True ''c1''"

definition page_two :: QueryResult where
  "page_two = example_page [example_edge ''e2'' (Some (example_user ''jure''))] False ''c2''"

definition example_source :: "RequestParameters \<Rightarrow> string + QueryResult" where
  "example_source p =
     (if params_cursor p = None then Inr page_one
      else if params_cursor p = Some ''c1'' then Inr page_two
      else Inl ''unknown cursor'')"

definition example_record :: "string \<Rightarrow> string \<Rightarrow> Sponsorship" where
  "example_record i l =
     \<lparr>sponsorship_id = i, createdAt = ''2020-02-02'',
      sponsor = \<lparr>login = l, email = None\<rparr>, public = True, tier = example_tier\<rparr>"

definition example_request :: "string option \<Rightarrow> RequestParameters" where
  "example_request c = \<lparr>params_cursor = c, headers = \<lparr>authorization = ''t''\<rparr>\<rparr>"

text \<open>A client after both pages have been fetched.\<close>

definition exhausted_client :: "bool \<Rightarrow> Sponsors" where
  "exhausted_client use_cache =
     \<lparr>token = ''t'', options = \<lparr>cache = use_cache\<rparr>,
      cached = \<lparr>own = [''alice'' \<mapsto> example_record ''e1'' ''alice'',
                        ''jure'' \<mapsto> example_record ''e2'' ''jure''],
                proto = None\<rparr>,
      cursor = Some ''c2'', hasNextPage = False\<rparr>"

text \<open>A client after page one only.\<close>

definition page_one_client :: "bool \<Rightarrow> Sponsors" where
  "page_one_client use_cache =
     \<lparr>token = ''t'', options = \<lparr>cache = use_cache\<rparr>,
      cached = \<lparr>own = [''alice'' \<mapsto> example_record ''e1'' ''alice''], proto = None\<rparr>,
      cursor = Some ''c1'', hasNextPage = True\<rparr>"

text \<open>An organization with both email fields, and one whose own email is the empty
  string.\<close>

definition both_emails_edge :: QueryResultEdge where
  "both_emails_edge =
     example_edge ''e3''
       (Some \<lparr>typename = ''Organization'', entity_login = Some ''acme'',
              userEmail = Some ''user@example.org'', orgEmail = Some ''org@example.org''\<rparr>)"

definition empty_org_email_edge :: QueryResultEdge where
  "empty_org_email_edge =
     example_edge ''e4''
       (Some \<lparr>typename = ''Organization'', entity_login = Some ''acme'',
              userEmail = Some ''user@example.org'', orgEmail = Some []\<rparr>)"

section \<open>Evaluating the definitions\<close>

lemmas client_defs =
  find_def getInfo_def isSponsor_def request_def process_page_def cache_edge_def
  sponsorshipFromEdge_def entity_field_def js_or_def login_matches_def found_def
  constructor_def flush_def withdefault_def has_property_def get_property_def
  set_property_def empty_object_def object_prototype_keys_def sponsorship_keys_def

lemmas example_defs =
  example_source_def page_one_def page_two_def example_page_def example_edge_def
  example_user_def example_tier_def example_record_def example_request_def
  anonymous_edge_def exhausted_client_def page_one_client_def both_emails_edge_def
  empty_org_email_edge_def

lemmas notion_defs = decoded_def appears_def first_page_def held_def cache_page_def

section \<open>One iteration of the loop\<close>

lemma find_loop_exhausted:
  "\<not> hasNextPage s \<Longrightarrow> find_loop g l s calls = Some (Inr Null, s, calls)"
  by (subst find_loop.simps) simp

lemma find_loop_rejected:
  "hasNextPage s \<Longrightarrow> g (request s) = Inl err
   \<Longrightarrow> find_loop g l s calls = Some (Inl err, s, calls @ [request s])"
  by (subst find_loop.simps) simp

lemma find_loop_hit:
  "hasNextPage s \<Longrightarrow> g (request s) = Inr q \<Longrightarrow> process_page l s q = (Some sp, s')
   \<Longrightarrow> find_loop g l s calls = Some (Inr (Record sp), s', calls @ [request s])"
  by (subst find_loop.simps) simp

lemma find_loop_miss:
  "hasNextPage s \<Longrightarrow> g (request s) = Inr q \<Longrightarrow> process_page l s q = (None, s')
   \<Longrightarrow> find_loop g l s calls = find_loop g l s' (calls @ [request s])"
  by (subst find_loop.simps) simp

lemma map_edges_Cons:
  "map_edges (e # es) c =
     (fst (cache_edge c e) # fst (map_edges es (snd (cache_edge c e))),
      snd (map_edges es (snd (cache_edge c e))))"
  by (simp split: prod.splits)

lemma cache_edge_fst: "fst (cache_edge c e) = sponsorshipFromEdge e"
  by (simp add: cache_edge_def split: option.splits)

lemma map_edges_fst: "fst (map_edges es c) = map sponsorshipFromEdge es"
  by (induction es arbitrary: c) (simp_all add: map_edges_Cons cache_edge_fst del: map_edges.simps(2))

lemma process_page_fst:
  "fst (process_page l s q) = found (List.find (login_matches l) (decoded q))"
  by (simp add: process_page_def decoded_def Let_def split: prod.splits)
     (metis fst_conv map_edges_fst)

lemma process_page_snd:
  "snd (process_page l s q) =
     s\<lparr>hasNextPage := page_hasNextPage (pageInfo (sponsorshipsAsMaintainer (viewer q))),
       cursor := Some (endCursor (pageInfo (sponsorshipsAsMaintainer (viewer q)))),
       cached := cache_page (cached s) q\<rparr>"
  by (simp add: process_page_def cache_page_def Let_def split: prod.splits)

lemma found_find_Some:
  "found (List.find (login_matches l) xs) = Some sp \<Longrightarrow> login (sponsor sp) = l \<and> Some sp \<in> set xs"
  by (induction xs) (auto simp: found_def login_matches_def split: option.splits if_splits)

lemma found_find_None:
  "(found (List.find (login_matches l) xs) = None) = (\<not> list_ex (login_matches l) xs)"
  by (induction xs) (auto simp: found_def login_matches_def split: option.splits)

lemma process_page_None:
  "(fst (process_page l s q) = None) = (\<not> appears l q)"
  by (simp add: process_page_fst found_find_None appears_def)

lemma first_page_Cons:
  "first_page l (q # qs) = (if appears l q then 0 else Suc (first_page l qs))"
  by (simp add: first_page_def)

lemma find_loop_present:
  "hasNextPage s \<Longrightarrow> pages_from g (token s) (cursor s) qs \<Longrightarrow> list_ex (appears l) qs \<Longrightarrow>
   \<exists>sp s' new.
     find_loop g l s acc = Some (Inr (Record sp), s', acc @ new)
     \<and> found (List.find (login_matches l) (decoded (qs ! first_page l qs))) = Some sp
     \<and> length new = Suc (first_page l qs)
     \<and> fetched g new = take (Suc (first_page l qs)) qs
     \<and> s' = snd (process_page l (s\<lparr>cached := foldl cache_page (cached s) (take (first_page l qs) qs)\<rparr>)
                  (qs ! first_page l qs))"
proof (induction qs arbitrary: s acc)
  case Nil
  then show ?case by simp
next
  case (Cons q qs)
  from Cons.prems(2) have fetch: "g (request s) = Inr q"
    and chain: "qs = [] \<or> page_hasNextPage (pageInfo (sponsorshipsAsMaintainer (viewer q)))"
    and rest: "pages_from g (token s) (Some (endCursor (pageInfo (sponsorshipsAsMaintainer (viewer q))))) qs"
    by (simp_all add: request_def)
  obtain r t where pp: "process_page l s q = (r, t)" by (cases "process_page l s q")
  then have r: "r = fst (process_page l s q)" and t: "t = snd (process_page l s q)" by simp_all
  show ?case
  proof (cases "appears l q")
    case True
    with r obtain sp where sp: "r = Some sp" using process_page_None [of l s q] by auto
    with pp have "find_loop g l s acc = Some (Inr (Record sp), t, acc @ [request s])"
      using find_loop_hit [where g = g and s = s, OF Cons.prems(1) fetch] by simp
    moreover have "found (List.find (login_matches l) (decoded q)) = Some sp"
      using sp r by (simp add: process_page_fst)
    ultimately show ?thesis
      using True fetch t by (simp add: first_page_Cons)
  next
    case False
    then have none: "r = None" using process_page_None [of l s q] r by simp
    from False Cons.prems(3) have later: "list_ex (appears l) qs" by simp
    then have "qs \<noteq> []" by auto
    with chain t have more: "hasNextPage t" by (simp add: process_page_snd)
    from rest t have rest': "pages_from g (token t) (cursor t) qs" by (simp add: process_page_snd)
    from Cons.IH [OF more rest' later, of "acc @ [request s]"]
    obtain sp s' new where
      run: "find_loop g l t (acc @ [request s]) = Some (Inr (Record sp), s', (acc @ [request s]) @ new)"
      and match: "found (List.find (login_matches l) (decoded (qs ! first_page l qs))) = Some sp"
      and len: "length new = Suc (first_page l qs)"
      and pages: "fetched g new = take (Suc (first_page l qs)) qs"
      and final: "s' = snd (process_page l (t\<lparr>cached := foldl cache_page (cached t) (take (first_page l qs) qs)\<rparr>)
                  (qs ! first_page l qs))"
      by blast
    have "find_loop g l s acc = Some (Inr (Record sp), s', acc @ (request s # new))"
      using find_loop_miss [where g = g and s = s, OF Cons.prems(1) fetch] pp none run by simp
    moreover have "s' = snd (process_page l (s\<lparr>cached := foldl cache_page (cached s) (take (first_page l (q # qs)) (q # qs))\<rparr>)
                  ((q # qs) ! first_page l (q # qs)))"
      using final t False by (simp add: first_page_Cons process_page_snd)
    ultimately show ?thesis
      using False match len pages fetch by (simp add: first_page_Cons)
  qed
qed

section \<open>A proof rule for the loop\<close>

text \<open>If the loop returns, what it returns satisfies \<open>Q\<close>, provided \<open>I\<close> holds at the
  start and is kept by every page that does not hold the login.\<close>

lemma find_loop_rule:
  assumes run: "find_loop g l s calls = Some (r, s', calls')"
    and init: "I s calls"
    and exit: "\<And>s c. I s c \<Longrightarrow> \<not> hasNextPage s \<Longrightarrow> Q (Inr Null) s c"
    and rejected: "\<And>s c err. I s c \<Longrightarrow> hasNextPage s \<Longrightarrow> g (request s) = Inl err
                     \<Longrightarrow> Q (Inl err) s (c @ [request s])"
    and hit: "\<And>s c q sp t. I s c \<Longrightarrow> hasNextPage s \<Longrightarrow> g (request s) = Inr q
                     \<Longrightarrow> process_page l s q = (Some sp, t) \<Longrightarrow> Q (Inr (Record sp)) t (c @ [request s])"
    and miss: "\<And>s c q t. I s c \<Longrightarrow> hasNextPage s \<Longrightarrow> g (request s) = Inr q
                     \<Longrightarrow> process_page l s q = (None, t) \<Longrightarrow> I t (c @ [request s])"
  shows "Q r s' calls'"
proof -
  have "g' = g \<Longrightarrow> l' = l \<Longrightarrow> I s calls \<Longrightarrow> Q (fst y) (fst (snd y)) (snd (snd y))"
    if "find_loop g' l' s calls = Some y" for g' l' y
  proof (induction g' l' s calls y rule: find_loop.raw_induct)
    case (1 f g' l' s calls y)
    note IH = "1.IH" and body = "1.hyps" [unfolded \<open>g' = g\<close> \<open>l' = l\<close>] and inv = \<open>I s calls\<close>
    show ?case
    proof (cases "hasNextPage s")
      case False
      with body have "y = (Inr Null, s, calls)" by simp
      with exit [OF inv False] show ?thesis by simp
    next
      case True
      note more = this
      show ?thesis
      proof (cases "g (request s)")
        case (Inl err)
        with more body have "y = (Inl err, s, calls @ [request s])" by simp
        with rejected [OF inv more Inl] show ?thesis by simp
      next
        case (Inr q)
        obtain found t where pp: "process_page l s q = (found, t)" by (cases "process_page l s q")
        show ?thesis
        proof (cases found)
          case None
          with pp Inr more body have call: "f g l t (calls @ [request s]) = Some y" by simp
          have "I t (calls @ [request s])"
            using miss [OF inv more Inr] pp None by simp
          from IH [OF call refl refl this] show ?thesis .
        next
          case (Some sp)
          with pp Inr more body have "y = (Inr (Record sp), t, calls @ [request s])" by simp
          moreover have "Q (Inr (Record sp)) t (calls @ [request s])"
            using hit [OF inv more Inr] pp Some by simp
          ultimately show ?thesis by simp
        qed
      qed
    qed
  qed (fact that)
  from this [OF run refl refl init] show ?thesis by simp
qed

section \<open>Records held by the cache object\<close>

lemma proto_key_inherited: "''__proto__'' \<in> set object_prototype_keys"
  by (simp add: object_prototype_keys_def)

lemma proto_key_no_field: "''__proto__'' \<notin> set sponsorship_keys"
  by (simp add: sponsorship_keys_def)

lemma held_get_property:
  assumes "held c k = Some r"
  shows "has_property k c \<and> get_property c k = Record r"
proof (cases "own c k")
  case (Some x)
  with assms show ?thesis by (simp add: held_def has_property_def get_property_def)
next
  case None
  with assms have k: "k = ''__proto__''" and p: "proto c = Some r"
    by (simp_all add: held_def split: if_splits)
  from k have "has_property k c"
    using proto_key_inherited by (simp only: has_property_def) blast
  moreover from None p have "get_property c ''__proto__'' = Record r"
    using proto_key_no_field by (simp add: get_property_def k)
  ultimately show ?thesis using k by simp
qed

lemma held_set_property_same: "held (set_property c k v) k \<noteq> None"
  by (simp add: held_def set_property_def split: option.splits)

lemma held_set_property_mono: "held c k' \<noteq> None \<Longrightarrow> held (set_property c k v) k' \<noteq> None"
  by (auto simp: held_def set_property_def split: option.splits if_splits)

lemma cache_inv_set_property:
  "cache_inv c \<Longrightarrow> cache_inv (set_property c (login (sponsor v)) v)"
  unfolding cache_inv_def
  by (auto simp: held_def set_property_def split: option.splits if_splits)

lemma cache_edge_snd:
  "snd (cache_edge c e) =
     (case sponsorshipFromEdge e of None \<Rightarrow> c | Some sp \<Rightarrow> set_property c (login (sponsor sp)) sp)"
  by (simp add: cache_edge_def split: option.splits)

lemma cache_inv_map_edges: "cache_inv c \<Longrightarrow> cache_inv (snd (map_edges es c))"
  by (induction es arbitrary: c)
     (simp_all add: map_edges_Cons cache_edge_snd cache_inv_set_property
        del: map_edges.simps(2) split: option.splits)

lemma cache_inv_cache_page: "cache_inv c \<Longrightarrow> cache_inv (cache_page c q)"
  by (simp add: cache_page_def cache_inv_map_edges)

lemma held_map_edges_mono: "held c k \<noteq> None \<Longrightarrow> held (snd (map_edges es c)) k \<noteq> None"
proof (induction es arbitrary: c)
  case Nil
  then show ?case by simp
next
  case (Cons e es)
  have "held (snd (cache_edge c e)) k \<noteq> None"
  proof (cases "sponsorshipFromEdge e")
    case None
    with Cons.prems show ?thesis by (simp add: cache_edge_snd)
  next
    case (Some sp)
    from Cons.prems have "held (set_property c (login (sponsor sp)) sp) k \<noteq> None"
      by (rule held_set_property_mono)
    with Some show ?thesis by (simp add: cache_edge_snd)
  qed
  from Cons.IH [OF this] show ?case
    by (simp add: map_edges_Cons del: map_edges.simps(2))
qed

lemma held_map_edges_stored:
  "Some sp \<in> set (map sponsorshipFromEdge es) \<Longrightarrow> held (snd (map_edges es c)) (login (sponsor sp)) \<noteq> None"
proof (induction es arbitrary: c)
  case Nil
  then show ?case by simp
next
  case (Cons e es)
  show ?case
  proof (cases "sponsorshipFromEdge e = Some sp")
    case True
    then have "held (snd (cache_edge c e)) (login (sponsor sp)) \<noteq> None"
      by (simp add: cache_edge_snd held_set_property_same)
    then show ?thesis
      by (simp add: map_edges_Cons held_map_edges_mono del: map_edges.simps(2))
  next
    case False
    with Cons.prems have "Some sp \<in> set (map sponsorshipFromEdge es)" by auto
    from Cons.IH [OF this] show ?thesis
      by (simp add: map_edges_Cons del: map_edges.simps(2))
  qed
qed

lemma held_cache_page_stored:
  "Some sp \<in> set (decoded q) \<Longrightarrow> held (cache_page c q) (login (sponsor sp)) \<noteq> None"
  by (simp add: cache_page_def decoded_def held_map_edges_stored)

lemma held_cache_page_mono: "held c k \<noteq> None \<Longrightarrow> held (cache_page c q) k \<noteq> None"
  by (simp add: cache_page_def held_map_edges_mono)

lemma held_foldl_mono: "held c k \<noteq> None \<Longrightarrow> held (foldl cache_page c qs) k \<noteq> None"
proof (induction qs arbitrary: c)
  case Nil
  then show ?case by simp
next
  case (Cons q qs)
  from Cons.prems have "held (cache_page c q) k \<noteq> None" by (rule held_cache_page_mono)
  from Cons.IH [OF this] show ?case by simp
qed

lemma held_foldl_stored:
  "q \<in> set qs \<Longrightarrow> Some sp \<in> set (decoded q)
   \<Longrightarrow> held (foldl cache_page c qs) (login (sponsor sp)) \<noteq> None"
proof (induction qs arbitrary: c)
  case Nil
  then show ?case by simp
next
  case (Cons p qs)
  show ?case
  proof (cases "q = p")
    case True
    with Cons.prems(2) have "held (cache_page c p) (login (sponsor sp)) \<noteq> None"
      by (simp add: held_cache_page_stored)
    then show ?thesis by (simp add: held_foldl_mono)
  next
    case False
    with Cons.prems have "q \<in> set qs" by simp
    from Cons.IH [OF this Cons.prems(2)] show ?thesis by simp
  qed
qed

lemma cache_inv_foldl: "cache_inv c \<Longrightarrow> cache_inv (foldl cache_page c qs)"
  by (induction qs arbitrary: c) (simp_all add: cache_inv_cache_page)

section \<open>What a run of the loop leaves behind\<close>

lemma fetched_append: "fetched g (xs @ ys) = fetched g xs @ fetched g ys"
  by (induction xs) (simp_all split: sum.splits)

lemma fetched_snoc_Inr: "g p = Inr q \<Longrightarrow> fetched g (c @ [p]) = fetched g c @ [q]"
  by (simp add: fetched_append)

lemma fetched_snoc_Inl: "g p = Inl err \<Longrightarrow> fetched g (c @ [p]) = fetched g c"
  by (simp add: fetched_append)

text \<open>An invariant over the client and the pages fetched so far holds when the loop
  returns.\<close>

lemma find_loop_pages_rule:
  assumes run: "find_loop g l s [] = Some (r, s', calls)"
    and init: "I s []"
    and step: "\<And>t qs q. I t qs \<Longrightarrow> I (snd (process_page l t q)) (qs @ [q])"
  shows "I s' (fetched g calls)"
proof (rule find_loop_rule [OF run, where I = "\<lambda>t c. I t (fetched g c)"
        and Q = "\<lambda>r t c. I t (fetched g c)"])
  show "I s (fetched g [])" using init by simp
next
  fix t c err
  assume "I t (fetched g c)" and "g (request t) = Inl err"
  then show "I t (fetched g (c @ [request t]))" by (simp add: fetched_snoc_Inl)
next
  fix t c q sp u
  assume inv: "I t (fetched g c)" and fetch: "g (request t) = Inr q"
    and pp: "process_page l t q = (Some sp, u)"
  from pp have "u = snd (process_page l t q)" by simp
  with step [OF inv, of q] show "I u (fetched g (c @ [request t]))"
    by (simp add: fetched_snoc_Inr [where g = g, OF fetch])
next
  fix t c q u
  assume inv: "I t (fetched g c)" and fetch: "g (request t) = Inr q"
    and pp: "process_page l t q = (None, u)"
  from pp have "u = snd (process_page l t q)" by simp
  with step [OF inv, of q] show "I u (fetched g (c @ [request t]))"
    by (simp add: fetched_snoc_Inr [where g = g, OF fetch])
qed

lemma find_loop_cached:
  assumes "find_loop g l s [] = Some (r, s', calls)"
  shows "cached s' = foldl cache_page (cached s) (fetched g calls)"
  by (rule find_loop_pages_rule [OF assms, where I = "\<lambda>t qs. cached t = foldl cache_page (cached s) qs"])
     (simp_all add: process_page_snd)

lemma find_loop_pagination:
  assumes "find_loop g l s [] = Some (r, s', calls)"
  shows "if fetched g calls = [] then hasNextPage s' = hasNextPage s \<and> cursor s' = cursor s
         else hasNextPage s' = page_hasNextPage (pageInfo (sponsorshipsAsMaintainer (viewer (last (fetched g calls)))))
              \<and> cursor s' = Some (endCursor (pageInfo (sponsorshipsAsMaintainer (viewer (last (fetched g calls))))))"
  by (rule find_loop_pages_rule [OF assms, where I = "\<lambda>t qs.
         if qs = [] then hasNextPage t = hasNextPage s \<and> cursor t = cursor s
         else hasNextPage t = page_hasNextPage (pageInfo (sponsorshipsAsMaintainer (viewer (last qs))))
              \<and> cursor t = Some (endCursor (pageInfo (sponsorshipsAsMaintainer (viewer (last qs)))))"])
     (simp_all add: process_page_snd)

lemma find_loop_fixed:
  assumes "find_loop g l s [] = Some (r, s', calls)"
  shows "token s' = token s \<and> options s' = options s"
  by (rule find_loop_pages_rule [OF assms, where I = "\<lambda>t qs. token t = token s \<and> options t = options s"])
     (simp_all add: process_page_snd)

lemma find_loop_first_request:
  assumes "find_loop g l s [] = Some (r, s', calls)" and "hasNextPage s"
  shows "calls \<noteq> [] \<and> hd calls = request s"
proof -
  have "hasNextPage s \<longrightarrow> calls \<noteq> [] \<and> hd calls = request s"
    by (rule find_loop_rule [OF assms(1), where
          I = "\<lambda>t c. if c = [] then t = s else hd c = request s"
          and Q = "\<lambda>r t c. hasNextPage s \<longrightarrow> c \<noteq> [] \<and> hd c = request s"])
       (auto split: if_splits)
  with assms(2) show ?thesis by simp
qed

section \<open>Pages with and without an undecodable record\<close>

text \<open>Two transports that reject the same requests and whose pages are processed alike
  make the loop return alike.\<close>

lemma find_loop_simulation:
  assumes run: "find_loop g l s c = Some (r, s', calls)"
    and rejects: "\<And>p err. g p = Inl err \<Longrightarrow> h p = Inl err"
    and pages: "\<And>p q. g p = Inr q \<Longrightarrow> \<exists>q'. h p = Inr q' \<and> (\<forall>t. process_page l t q' = process_page l t q)"
  shows "find_loop h l s c = Some (r, s', calls)"
proof (rule find_loop_rule [OF run, where I = "\<lambda>t d. find_loop h l t d = find_loop h l s c"
        and Q = "\<lambda>r t d. find_loop h l s c = Some (r, t, d)"])
  show "find_loop h l s c = find_loop h l s c" by simp
next
  fix t d
  assume "find_loop h l t d = find_loop h l s c" and "\<not> hasNextPage t"
  then show "find_loop h l s c = Some (Inr Null, t, d)" by (simp add: find_loop_exhausted)
next
  fix t d err
  assume inv: "find_loop h l t d = find_loop h l s c" and more: "hasNextPage t"
    and "g (request t) = Inl err"
  then have "h (request t) = Inl err" by (simp add: rejects)
  from find_loop_rejected [where g = h, OF more this] inv
  show "find_loop h l s c = Some (Inl err, t, d @ [request t])" by simp
next
  fix t d q sp u
  assume inv: "find_loop h l t d = find_loop h l s c" and more: "hasNextPage t"
    and fetch: "g (request t) = Inr q" and pp: "process_page l t q = (Some sp, u)"
  from pages [OF fetch] obtain q' where q': "h (request t) = Inr q'"
    and same: "process_page l t q' = process_page l t q" by blast
  from find_loop_hit [where g = h, OF more q'] same pp inv
  show "find_loop h l s c = Some (Inr (Record sp), u, d @ [request t])" by simp
next
  fix t d q u
  assume inv: "find_loop h l t d = find_loop h l s c" and more: "hasNextPage t"
    and fetch: "g (request t) = Inr q" and pp: "process_page l t q = (None, u)"
  from pages [OF fetch] obtain q' where q': "h (request t) = Inr q'"
    and same: "process_page l t q' = process_page l t q" by blast
  from find_loop_miss [where g = h, OF more q'] same pp inv
  show "find_loop h l u (d @ [request t]) = find_loop h l s c" by simp
qed

lemma map_edges_snd_filter:
  "sponsorshipFromEdge e = None \<Longrightarrow>
   snd (map_edges (filter (\<lambda>x. x \<noteq> e) es) c) = snd (map_edges es c)"
  by (induction es arbitrary: c)
     (simp_all add: map_edges_Cons cache_edge_snd del: map_edges.simps(2))

lemma find_filter_undecoded:
  "sponsorshipFromEdge e = None \<Longrightarrow>
   List.find (login_matches l) (map sponsorshipFromEdge (filter (\<lambda>x. x \<noteq> e) es))
     = List.find (login_matches l) (map sponsorshipFromEdge es)"
  by (induction es) (auto simp: login_matches_def)

lemma process_page_remove_edge:
  assumes "sponsorshipFromEdge e = None"
  shows "process_page l t (remove_edge e q) = process_page l t q"
proof (rule prod_eqI)
  show "fst (process_page l t (remove_edge e q)) = fst (process_page l t q)"
    using assms by (simp add: process_page_fst decoded_def remove_edge_def find_filter_undecoded)
  show "snd (process_page l t (remove_edge e q)) = snd (process_page l t q)"
    using assms by (simp add: process_page_snd cache_page_def remove_edge_def map_edges_snd_filter)
qed

lemma find_loop_without_edge:
  assumes "sponsorshipFromEdge e = None"
  shows "find_loop (without_edge e g) l s c = find_loop g l s c"
proof (cases "find_loop g l s c")
  case (Some y)
  obtain r s' calls where y: "y = (r, s', calls)" by (cases y)
  have "find_loop (without_edge e g) l s c = Some (r, s', calls)"
  proof (rule find_loop_simulation [where g = g])
    show "find_loop g l s c = Some (r, s', calls)" using Some y by simp
  next
    fix p err assume "g p = Inl err"
    then show "without_edge e g p = Inl err" by (simp add: without_edge_def)
  next
    fix p q assume "g p = Inr q"
    then have "without_edge e g p = Inr (remove_edge e q)" by (simp add: without_edge_def)
    then show "\<exists>q'. without_edge e g p = Inr q' \<and> (\<forall>t. process_page l t q' = process_page l t q)"
      using process_page_remove_edge [OF assms] by blast
  qed
  with Some y show ?thesis by simp
next
  case None
  show ?thesis
  proof (cases "find_loop (without_edge e g) l s c")
    case None
    with \<open>find_loop g l s c = None\<close> show ?thesis by simp
  next
    case (Some y)
    obtain r s' calls where y: "y = (r, s', calls)" by (cases y)
    have "find_loop g l s c = Some (r, s', calls)"
    proof (rule find_loop_simulation [where g = "without_edge e g"])
      show "find_loop (without_edge e g) l s c = Some (r, s', calls)" using Some y by simp
    next
      fix p err assume "without_edge e g p = Inl err"
      then show "g p = Inl err" by (cases "g p") (simp_all add: without_edge_def)
    next
      fix p q assume *: "without_edge e g p = Inr q"
      then obtain q0 where q0: "g p = Inr q0" by (cases "g p") (simp_all add: without_edge_def)
      with * have "q = remove_edge e q0" by (simp add: without_edge_def)
      then show "\<exists>q'. g p = Inr q' \<and> (\<forall>t. process_page l t q' = process_page l t q)"
        using process_page_remove_edge [OF assms] q0 by simp
    qed
    with None show ?thesis by simp
  qed
qed

section \<open>Lookup of a login that the source does not hold\<close>

lemma find_loop_absent:
  "hasNextPage s \<Longrightarrow> pages_from g (token s) (cursor s) qs \<Longrightarrow> qs \<noteq> [] \<Longrightarrow>
   \<not> page_hasNextPage (pageInfo (sponsorshipsAsMaintainer (viewer (last qs)))) \<Longrightarrow>
   \<not> list_ex (appears l) qs \<Longrightarrow>
   \<exists>s' new. find_loop g l s acc = Some (Inr Null, s', acc @ new) \<and> fetched g new = qs
      \<and> length new = length qs"
proof (induction qs arbitrary: s acc)
  case Nil
  then show ?case by simp
next
  case (Cons q qs)
  from Cons.prems(2) have fetch: "g (request s) = Inr q"
    and rest: "pages_from g (token s) (Some (endCursor (pageInfo (sponsorshipsAsMaintainer (viewer q))))) qs"
    and chain: "qs = [] \<or> page_hasNextPage (pageInfo (sponsorshipsAsMaintainer (viewer q)))"
    by (simp_all add: request_def)
  obtain r t where pp: "process_page l s q = (r, t)" by (cases "process_page l s q")
  then have r: "r = fst (process_page l s q)" and t: "t = snd (process_page l s q)" by simp_all
  from Cons.prems(5) have "\<not> appears l q" by simp
  with r have none: "r = None" using process_page_None [of l s q] by simp
  have step: "find_loop g l s acc = find_loop g l t (acc @ [request s])"
    using find_loop_miss [where g = g and s = s, OF Cons.prems(1) fetch] pp none by simp
  show ?case
  proof (cases "qs = []")
    case True
    with Cons.prems(4) t have "\<not> hasNextPage t" by (simp add: process_page_snd)
    then have "find_loop g l t (acc @ [request s]) = Some (Inr Null, t, acc @ [request s])"
      by (rule find_loop_exhausted)
    with step True fetch show ?thesis by simp
  next
    case False
    with chain t have more: "hasNextPage t" by (simp add: process_page_snd)
    from rest t have rest': "pages_from g (token t) (cursor t) qs" by (simp add: process_page_snd)
    from False Cons.prems(4) have last: "\<not> page_hasNextPage (pageInfo (sponsorshipsAsMaintainer (viewer (last qs))))"
      by simp
    from Cons.prems(5) have absent: "\<not> list_ex (appears l) qs" by simp
    from Cons.IH [OF more rest' False last absent, of "acc @ [request s]"]
    obtain s' new where "find_loop g l t (acc @ [request s]) = Some (Inr Null, s', (acc @ [request s]) @ new)"
      and "fetched g new = qs" and "length new = length qs" by blast
    with step fetch have "find_loop g l s acc = Some (Inr Null, s', acc @ (request s # new))
      \<and> fetched g (request s # new) = q # qs \<and> length (request s # new) = length (q # qs)"
      by simp
    then show ?thesis by blast
  qed
qed

section \<open>Runs of pages\<close>

lemma pages_from_snoc:
  "pages_from g tok c ps \<Longrightarrow> more_after ps
   \<Longrightarrow> g \<lparr>params_cursor = cursor_after c ps, headers = \<lparr>authorization = tok\<rparr>\<rparr> = Inr q
   \<Longrightarrow> pages_from g tok c (ps @ [q])"
proof (induction ps arbitrary: c)
  case Nil
  then show ?case by (simp add: cursor_after_def)
next
  case (Cons p ps)
  let ?c = "Some (endCursor (pageInfo (sponsorshipsAsMaintainer (viewer p))))"
  from Cons.prems(1) have here: "g \<lparr>params_cursor = c, headers = \<lparr>authorization = tok\<rparr>\<rparr> = Inr p"
    and rest: "pages_from g tok ?c ps"
    and chain: "ps = [] \<or> page_hasNextPage (pageInfo (sponsorshipsAsMaintainer (viewer p)))"
    by simp_all
  from Cons.prems(2) chain have flag: "page_hasNextPage (pageInfo (sponsorshipsAsMaintainer (viewer p)))"
    by (cases "ps = []") (simp_all add: more_after_def)
  from Cons.prems(2) have more: "more_after ps" by (cases "ps = []") (simp_all add: more_after_def)
  have "cursor_after ?c ps = cursor_after c (p # ps)" by (simp add: cursor_after_def)
  with Cons.prems(3) have "g \<lparr>params_cursor = cursor_after ?c ps, headers = \<lparr>authorization = tok\<rparr>\<rparr> = Inr q"
    by simp
  from Cons.IH [OF rest more this] here flag show ?case by simp
qed

lemma pages_from_prefix:
  "pages_from g tok c ps \<Longrightarrow> pages_from g tok c qs \<Longrightarrow> length ps \<le> length qs
   \<Longrightarrow> take (length ps) qs = ps"
proof (induction ps arbitrary: c qs)
  case Nil
  then show ?case by simp
next
  case (Cons p ps)
  from Cons.prems(3) obtain q qs' where qs: "qs = q # qs'" by (cases qs) simp_all
  with Cons.prems(1,2) have "q = p" by simp
  moreover from Cons.prems qs \<open>q = p\<close> have "take (length ps) qs' = ps"
    using Cons.IH [of "Some (endCursor (pageInfo (sponsorshipsAsMaintainer (viewer p))))" qs'] by simp
  ultimately show ?case using qs by simp
qed

lemma pages_from_drop:
  "pages_from g tok c qs \<Longrightarrow> n \<le> length qs
   \<Longrightarrow> pages_from g tok (cursor_after c (take n qs)) (drop n qs)"
proof (induction qs arbitrary: c n)
  case Nil
  then show ?case by simp
next
  case (Cons q qs)
  show ?case
  proof (cases n)
    case 0
    with Cons.prems(1) show ?thesis by (simp add: cursor_after_def)
  next
    case (Suc m)
    let ?c = "Some (endCursor (pageInfo (sponsorshipsAsMaintainer (viewer q))))"
    from Cons.prems Suc have "pages_from g tok ?c qs" and "m \<le> length qs" by simp_all
    from Cons.IH [OF this] have "pages_from g tok (cursor_after ?c (take m qs)) (drop m qs)" .
    moreover have "cursor_after ?c (take m qs) = cursor_after c (take n (q # qs))"
      using Suc by (simp add: cursor_after_def)
    ultimately show ?thesis using Suc by simp
  qed
qed

lemma pages_from_more:
  "pages_from g tok c qs \<Longrightarrow> n < length qs \<Longrightarrow> more_after (take n qs)"
proof (induction qs arbitrary: c n)
  case Nil
  then show ?case by simp
next
  case (Cons q qs)
  show ?case
  proof (cases n)
    case 0
    then show ?thesis by (simp add: more_after_def)
  next
    case (Suc m)
    let ?c = "Some (endCursor (pageInfo (sponsorshipsAsMaintainer (viewer q))))"
    from Cons.prems Suc have rest: "pages_from g tok ?c qs" and m: "m < length qs" by simp_all
    then have "qs \<noteq> []" by auto
    with Cons.prems(1) have flag: "page_hasNextPage (pageInfo (sponsorshipsAsMaintainer (viewer q)))"
      by simp
    from Cons.IH [OF rest m] have "more_after (take m qs)" .
    with flag Suc show ?thesis by (cases m) (simp_all add: more_after_def)
  qed
qed

lemma find_loop_walk:
  assumes run: "find_loop g l s [] = Some (r, s', calls)"
    and walk: "pages_from g (token s) None ps"
    and at: "cursor s = cursor_after None ps" "hasNextPage s = more_after ps"
  shows "pages_from g (token s) None (ps @ fetched g calls)
         \<and> cursor s' = cursor_after None (ps @ fetched g calls)
         \<and> hasNextPage s' = more_after (ps @ fetched g calls)"
proof (rule find_loop_rule [OF run, where
      I = "\<lambda>t c. token t = token s \<and> pages_from g (token s) None (ps @ fetched g c)
                 \<and> cursor t = cursor_after None (ps @ fetched g c)
                 \<and> hasNextPage t = more_after (ps @ fetched g c)"
      and Q = "\<lambda>r t c. pages_from g (token s) None (ps @ fetched g c)
                 \<and> cursor t = cursor_after None (ps @ fetched g c)
                 \<and> hasNextPage t = more_after (ps @ fetched g c)"])
  show "token s = token s \<and> pages_from g (token s) None (ps @ fetched g [])
        \<and> cursor s = cursor_after None (ps @ fetched g [])
        \<and> hasNextPage s = more_after (ps @ fetched g [])"
    using walk at by simp
next
  fix t c
  assume "token t = token s \<and> pages_from g (token s) None (ps @ fetched g c)
          \<and> cursor t = cursor_after None (ps @ fetched g c)
          \<and> hasNextPage t = more_after (ps @ fetched g c)"
  then show "pages_from g (token s) None (ps @ fetched g c)
          \<and> cursor t = cursor_after None (ps @ fetched g c)
          \<and> hasNextPage t = more_after (ps @ fetched g c)" by simp
next
  fix t c err
  assume "token t = token s \<and> pages_from g (token s) None (ps @ fetched g c)
          \<and> cursor t = cursor_after None (ps @ fetched g c)
          \<and> hasNextPage t = more_after (ps @ fetched g c)"
    and "g (request t) = Inl err"
  then show "pages_from g (token s) None (ps @ fetched g (c @ [request t]))
          \<and> cursor t = cursor_after None (ps @ fetched g (c @ [request t]))
          \<and> hasNextPage t = more_after (ps @ fetched g (c @ [request t]))"
    by (simp add: fetched_snoc_Inl)
next
  fix t c q sp u
  assume inv: "token t = token s \<and> pages_from g (token s) None (ps @ fetched g c)
          \<and> cursor t = cursor_after None (ps @ fetched g c)
          \<and> hasNextPage t = more_after (ps @ fetched g c)"
    and more: "hasNextPage t" and fetch: "g (request t) = Inr q"
    and pp: "process_page l t q = (Some sp, u)"
  from pp have u: "u = snd (process_page l t q)" by simp
  from inv more fetch have "pages_from g (token s) None ((ps @ fetched g c) @ [q])"
    by (intro pages_from_snoc) (simp_all add: request_def)
  with u show "pages_from g (token s) None (ps @ fetched g (c @ [request t]))
          \<and> cursor u = cursor_after None (ps @ fetched g (c @ [request t]))
          \<and> hasNextPage u = more_after (ps @ fetched g (c @ [request t]))"
    by (simp add: fetched_snoc_Inr [where g = g, OF fetch] process_page_snd cursor_after_def more_after_def)
next
  fix t c q u
  assume inv: "token t = token s \<and> pages_from g (token s) None (ps @ fetched g c)
          \<and> cursor t = cursor_after None (ps @ fetched g c)
          \<and> hasNextPage t = more_after (ps @ fetched g c)"
    and more: "hasNextPage t" and fetch: "g (request t) = Inr q"
    and pp: "process_page l t q = (None, u)"
  from pp have u: "u = snd (process_page l t q)" by simp
  from inv more fetch have "pages_from g (token s) None ((ps @ fetched g c) @ [q])"
    by (intro pages_from_snoc) (simp_all add: request_def)
  with u inv show "token u = token s \<and> pages_from g (token s) None (ps @ fetched g (c @ [request t]))
          \<and> cursor u = cursor_after None (ps @ fetched g (c @ [request t]))
          \<and> hasNextPage u = more_after (ps @ fetched g (c @ [request t]))"
    by (simp add: fetched_snoc_Inr [where g = g, OF fetch] process_page_snd cursor_after_def more_after_def)
qed

text \<open>A record that the loop returns is the first match on the last page it fetched,
  and no page fetched before holds the login.\<close>

lemma find_loop_stops:
  assumes run: "find_loop g l s [] = Some (r, s', calls)" and rec: "r = Inr (Record sp)"
  shows "fetched g calls \<noteq> []
         \<and> found (List.find (login_matches l) (decoded (last (fetched g calls)))) = Some sp
         \<and> (\<forall>q\<in>set (butlast (fetched g calls)). \<not> appears l q)"
proof -
  have "\<forall>x. r = Inr (Record x) \<longrightarrow>
          fetched g calls \<noteq> []
          \<and> found (List.find (login_matches l) (decoded (last (fetched g calls)))) = Some x
          \<and> (\<forall>q\<in>set (butlast (fetched g calls)). \<not> appears l q)"
  proof (rule find_loop_rule [OF run, where
        I = "\<lambda>t c. \<forall>q\<in>set (fetched g c). \<not> appears l q"
        and Q = "\<lambda>r t c. \<forall>x. r = Inr (Record x) \<longrightarrow>
                  fetched g c \<noteq> []
                  \<and> found (List.find (login_matches l) (decoded (last (fetched g c)))) = Some x
                  \<and> (\<forall>q\<in>set (butlast (fetched g c)). \<not> appears l q)"])
    show "\<forall>q\<in>set (fetched g []). \<not> appears l q" by simp
  next
    fix t c
    show "\<forall>x. Inr Null = Inr (Record x) \<longrightarrow>
            fetched g c \<noteq> []
            \<and> found (List.find (login_matches l) (decoded (last (fetched g c)))) = Some x
            \<and> (\<forall>q\<in>set (butlast (fetched g c)). \<not> appears l q)" by simp
  next
    fix t c err
    show "\<forall>x. Inl err = Inr (Record x) \<longrightarrow>
            fetched g (c @ [request t]) \<noteq> []
            \<and> found (List.find (login_matches l) (decoded (last (fetched g (c @ [request t]))))) = Some x
            \<and> (\<forall>q\<in>set (butlast (fetched g (c @ [request t]))). \<not> appears l q)" by simp
  next
    fix t c q x u
    assume inv: "\<forall>q\<in>set (fetched g c). \<not> appears l q" and fetch: "g (request t) = Inr q"
      and pp: "process_page l t q = (Some x, u)"
    from pp have "fst (process_page l t q) = Some x" by simp
    then have "found (List.find (login_matches l) (decoded q)) = Some x"
      by (simp add: process_page_fst)
    with inv show "\<forall>y. Inr (Record x) = Inr (Record y) \<longrightarrow>
            fetched g (c @ [request t]) \<noteq> []
            \<and> found (List.find (login_matches l) (decoded (last (fetched g (c @ [request t]))))) = Some y
            \<and> (\<forall>q\<in>set (butlast (fetched g (c @ [request t]))). \<not> appears l q)"
      by (simp add: fetched_snoc_Inr [where g = g, OF fetch])
  next
    fix t c q u
    assume inv: "\<forall>q\<in>set (fetched g c). \<not> appears l q" and fetch: "g (request t) = Inr q"
      and pp: "process_page l t q = (None, u)"
    from pp have "fst (process_page l t q) = None" by simp
    then have "\<not> appears l q" by (simp add: process_page_None)
    with inv show "\<forall>q\<in>set (fetched g (c @ [request t])). \<not> appears l q"
      by (simp add: fetched_snoc_Inr [where g = g, OF fetch])
  qed
  with rec show ?thesis by simp
qed

section \<open>What exactly the cache object holds\<close>

lemma own_proto_set_property:
  "own c ''__proto__'' = None \<Longrightarrow> own (set_property c k v) ''__proto__'' = None"
  by (simp add: set_property_def)

lemma held_set_property:
  "own c ''__proto__'' = None \<Longrightarrow> held (set_property c k v) k' = (if k' = k then Some v else held c k')"
  by (simp add: held_def set_property_def)

lemma own_proto_cache_edge:
  "own c ''__proto__'' = None \<Longrightarrow> own (snd (cache_edge c e)) ''__proto__'' = None"
  by (simp add: cache_edge_snd own_proto_set_property split: option.splits)

lemma held_cache_edge:
  "own c ''__proto__'' = None
   \<Longrightarrow> held (snd (cache_edge c e)) k
       = (if login_matches k (sponsorshipFromEdge e) then sponsorshipFromEdge e else held c k)"
  by (auto simp: cache_edge_snd held_set_property login_matches_def split: option.splits)

lemma own_proto_map_edges:
  "own c ''__proto__'' = None \<Longrightarrow> own (snd (map_edges es c)) ''__proto__'' = None"
  by (induction es arbitrary: c)
     (simp_all add: map_edges_Cons own_proto_cache_edge del: map_edges.simps(2))

lemma held_map_edges:
  "own c ''__proto__'' = None
   \<Longrightarrow> held (snd (map_edges es c)) k = stored k (map sponsorshipFromEdge es) (held c k)"
proof (induction es arbitrary: c)
  case Nil
  then show ?case by (simp add: stored_def)
next
  case (Cons e es)
  from Cons.prems have "own (snd (cache_edge c e)) ''__proto__'' = None" by (rule own_proto_cache_edge)
  from Cons.IH [OF this] Cons.prems show ?case
    by (simp add: map_edges_Cons held_cache_edge stored_def del: map_edges.simps(2))
qed

lemma own_proto_foldl:
  "own c ''__proto__'' = None \<Longrightarrow> own (foldl cache_page c qs) ''__proto__'' = None"
  by (induction qs arbitrary: c) (simp_all add: cache_page_def own_proto_map_edges)

lemma stored_append: "stored k (xs @ ys) h = stored k ys (stored k xs h)"
  by (simp add: stored_def)

lemma held_foldl:
  "own c ''__proto__'' = None
   \<Longrightarrow> held (foldl cache_page c qs) k = stored k (concat (map decoded qs)) (held c k)"
proof (induction qs arbitrary: c)
  case Nil
  then show ?case by (simp add: stored_def)
next
  case (Cons q qs)
  from Cons.prems have "own (cache_page c q) ''__proto__'' = None"
    by (simp add: cache_page_def own_proto_map_edges)
  from Cons.IH [OF this] Cons.prems show ?case
    by (simp add: stored_append cache_page_def held_map_edges decoded_def)
qed

section \<open>Clients reached from the constructor\<close>

lemma client_inv_constructor: "client_inv g opts (constructor opts)"
proof -
  have "pages_from g (opts_token opts) None []" by simp
  moreover have "cache_inv empty_object" by (simp add: cache_inv_def held_def empty_object_def)
  ultimately show ?thesis
    unfolding client_inv_def
    by (intro conjI exI [of _ "[]"])
       (simp_all add: constructor_def empty_object_def cursor_after_def more_after_def)
qed

lemma client_inv_flush:
  assumes "client_inv g opts s"
  shows "client_inv g opts (flush s)"
proof -
  have "pages_from g (opts_token opts) None []" by simp
  moreover have "cache_inv empty_object" by (simp add: cache_inv_def held_def empty_object_def)
  moreover from assms have "token s = opts_token opts"
    and "cache (options s) = withdefault True (opts_cache opts)"
    by (simp_all add: client_inv_def)
  ultimately show ?thesis
    unfolding client_inv_def
    by (intro conjI exI [of _ "[]"])
       (simp_all add: flush_def empty_object_def cursor_after_def more_after_def)
qed

lemma client_inv_find:
  assumes inv: "client_inv g opts s" and run: "find g l s = Some (r, s', calls)"
  shows "client_inv g opts s'"
proof (cases "has_property l (cached s) \<and> cache (options s)")
  case True
  with run have "s' = s" by (simp add: find_def)
  with inv show ?thesis by simp
next
  case False
  with run have loop: "find_loop g l s [] = Some (r, s', calls)" by (simp add: find_def)
  from inv obtain ps where tok: "token s = opts_token opts"
    and opt: "cache (options s) = withdefault True (opts_cache opts)"
    and own: "own (cached s) ''__proto__'' = None"
    and keys: "cache_inv (cached s)"
    and walk: "pages_from g (opts_token opts) None ps"
    and at: "cursor s = cursor_after None ps" "hasNextPage s = more_after ps"
    and holds: "\<forall>q\<in>set ps. \<forall>sp. Some sp \<in> set (decoded q)
                  \<longrightarrow> held (cached s) (login (sponsor sp)) \<noteq> None"
    unfolding client_inv_def by blast
  let ?fs = "fetched g calls"
  from find_loop_fixed [OF loop] tok opt
  have tok': "token s' = opts_token opts" and opt': "cache (options s') = withdefault True (opts_cache opts)"
    by simp_all
  have cached: "cached s' = foldl cache_page (cached s) ?fs" using loop by (rule find_loop_cached)
  from walk tok have "pages_from g (token s) None ps" by simp
  from find_loop_walk [OF loop this at] tok
  have walk': "pages_from g (opts_token opts) None (ps @ ?fs)"
    and at': "cursor s' = cursor_after None (ps @ ?fs)" "hasNextPage s' = more_after (ps @ ?fs)"
    by simp_all
  have holds': "\<forall>q\<in>set (ps @ ?fs). \<forall>sp. Some sp \<in> set (decoded q)
                  \<longrightarrow> held (cached s') (login (sponsor sp)) \<noteq> None"
  proof (intro ballI allI impI)
    fix q sp assume q: "q \<in> set (ps @ ?fs)" and sp: "Some sp \<in> set (decoded q)"
    show "held (cached s') (login (sponsor sp)) \<noteq> None"
    proof (cases "q \<in> set ?fs")
      case True
      from held_foldl_stored [OF True sp] show ?thesis by (simp add: cached)
    next
      case False
      with q have "q \<in> set ps" by simp
      with holds sp have "held (cached s) (login (sponsor sp)) \<noteq> None" by blast
      then show ?thesis unfolding cached by (rule held_foldl_mono)
    qed
  qed
  have "own (cached s') ''__proto__'' = None" unfolding cached using own by (rule own_proto_foldl)
  moreover have "cache_inv (cached s')" unfolding cached using keys by (rule cache_inv_foldl)
  ultimately show ?thesis
    unfolding client_inv_def using tok' opt' walk' at' holds' by blast
qed

lemma client_inv_perform:
  assumes "client_inv g opts s" and "perform g x s = Some s'"
  shows "client_inv g opts s'"
proof (cases x)
  case (GetInfo l)
  with assms(2) obtain r calls where "find g l s = Some (r, s', calls)"
    by (auto simp: getInfo_def)
  with assms(1) show ?thesis by (rule client_inv_find)
next
  case (IsSponsor l)
  with assms(2) obtain r calls where "find g l s = Some (r, s', calls)"
    by (auto simp: isSponsor_def)
  with assms(1) show ?thesis by (rule client_inv_find)
next
  case Flush
  with assms show ?thesis by (auto simp: client_inv_flush)
qed

lemma client_inv_perform_all:
  "client_inv g opts s \<Longrightarrow> perform_all g xs s = Some s' \<Longrightarrow> client_inv g opts s'"
proof (induction xs arbitrary: s)
  case Nil
  then show ?case by simp
next
  case (Cons x xs)
  from Cons.prems(2) obtain t where t: "perform g x s = Some t" and rest: "perform_all g xs t = Some s'"
    by (cases "perform g x s") simp_all
  from Cons.prems(1) t have "client_inv g opts t" by (rule client_inv_perform)
  from Cons.IH [OF this rest] show ?case .
qed

lemma client_inv_reached:
  "perform_all g xs (constructor opts) = Some s \<Longrightarrow> client_inv g opts s"
  using client_inv_constructor by (rule client_inv_perform_all)

section \<open>Lookup of a login that the source holds\<close>

lemma getInfo_stops:
  assumes "getInfo g l s = Some (Inr (Record sp), s', calls)"
  shows "(\<forall>q\<in>set (butlast (fetched g calls)). \<not> appears l q)
         \<and> (calls \<noteq> [] \<longrightarrow> found (List.find (login_matches l) (decoded (last (fetched g calls)))) = Some sp)"
proof (cases "has_property l (cached s) \<and> cache (options s)")
  case True
  with assms have "calls = []" by (simp add: getInfo_def find_def)
  then show ?thesis by simp
next
  case False
  with assms have "find_loop g l s [] = Some (Inr (Record sp), s', calls)"
    by (simp add: getInfo_def find_def)
  from find_loop_stops [OF this refl] show ?thesis by simp
qed

lemma getInfo_held:
  assumes "cache (options s)" and "cache_inv (cached s)" and "held (cached s) l = Some r"
  shows "getInfo g l s = Some (Inr (Record r), s, []) \<and> login (sponsor r) = l"
  using assms held_get_property [OF assms(3)]
  by (simp add: getInfo_def find_def cache_inv_def)

lemma getInfo_ahead:
  assumes "hasNextPage s" and "pages_from g (token s) (cursor s) qs" and "list_ex (appears l) qs"
    and "\<not> (has_property l (cached s) \<and> cache (options s))"
  shows "\<exists>sp s' calls. getInfo g l s = Some (Inr (Record sp), s', calls)
           \<and> login (sponsor sp) = l
           \<and> length calls = Suc (first_page l qs)
           \<and> fetched g calls = take (Suc (first_page l qs)) qs"
proof -
  from find_loop_present [OF assms(1-3), of "[]"]
  obtain sp s' new where run: "find_loop g l s [] = Some (Inr (Record sp), s', new)"
    and match: "found (List.find (login_matches l) (decoded (qs ! first_page l qs))) = Some sp"
    and len: "length new = Suc (first_page l qs)"
    and pages: "fetched g new = take (Suc (first_page l qs)) qs"
    by auto
  from match have "login (sponsor sp) = l" by (simp add: found_find_Some)
  moreover from run assms(4) have "getInfo g l s = Some (Inr (Record sp), s', new)"
    by (auto simp: getInfo_def find_def)
  ultimately show ?thesis using len pages by blast
qed

lemma getInfo_caching:
  assumes inv: "client_inv g opts s" and on: "cache (options s)"
    and walk: "pages_from g (opts_token opts) None qs" and app: "list_ex (appears l) qs"
    and own: "\<not> inherited l (cached s)"
  shows "\<exists>sp s' calls. getInfo g l s = Some (Inr (Record sp), s', calls) \<and> login (sponsor sp) = l"
proof (cases "held (cached s) l")
  case (Some r)
  from inv have "cache_inv (cached s)" by (simp add: client_inv_def)
  from getInfo_held [OF on this Some] show ?thesis by blast
next
  case None
  with own have miss: "\<not> (has_property l (cached s) \<and> cache (options s))"
    by (simp add: inherited_def)
  from inv obtain ps where tok: "token s = opts_token opts"
    and seen: "pages_from g (opts_token opts) None ps"
    and at: "cursor s = cursor_after None ps" "hasNextPage s = more_after ps"
    and holds: "\<forall>q\<in>set ps. \<forall>sp. Some sp \<in> set (decoded q)
                  \<longrightarrow> held (cached s) (login (sponsor sp)) \<noteq> None"
    unfolding client_inv_def by blast
  have behind: "\<not> appears l q" if "q \<in> set ps" for q
  proof
    assume "appears l q"
    then obtain x where x: "x \<in> set (decoded q)" and m: "login_matches l x"
      by (auto simp: appears_def list_ex_iff)
    from m obtain sp where "x = Some sp" and "login (sponsor sp) = l"
      by (cases x) (simp_all add: login_matches_def)
    with x holds that have "held (cached s) l \<noteq> None" by blast
    with None show False by simp
  qed
  have shorter: "length ps < length qs"
  proof (rule ccontr)
    assume "\<not> length ps < length qs"
    then have "length qs \<le> length ps" by simp
    from pages_from_prefix [OF walk seen this] have "set qs \<subseteq> set ps"
      by (metis set_take_subset)
    with behind app show False by (auto simp: list_ex_iff)
  qed
  then have le: "length ps \<le> length qs" by simp
  from pages_from_prefix [OF seen walk le] have ps: "take (length ps) qs = ps" .
  have more: "hasNextPage s" using pages_from_more [OF walk shorter] at(2) ps by simp
  have rest: "pages_from g (token s) (cursor s) (drop (length ps) qs)"
    using pages_from_drop [OF walk le] ps at(1) tok by simp
  have "list_ex (appears l) (take (length ps) qs @ drop (length ps) qs)" using app by simp
  then have "list_ex (appears l) (drop (length ps) qs)"
    using behind ps unfolding list_ex_append by (auto simp: list_ex_iff)
  from getInfo_ahead [OF more rest this miss] show ?thesis by blast
qed

lemma reach_exhausted:
  "perform_all example_source [GetInfo ''jure''] (constructor \<lparr>opts_cache = None, opts_token = ''t''\<rparr>)
     = Some (exhausted_client True)"
  by (simp add: client_defs example_defs find_loop.simps)

text \<open>Claim C1, as amended. Let the login appear as a decoded record on one of the pages
  \<open>qs\<close>. On a client with caching enabled, in whatever state a sequence of \<open>getInfo\<close>,
  \<open>isSponsor\<close> and \<open>flush\<close> calls has left it since its construction, with \<open>qs\<close> the
  pages served from the start, \<open>getInfo\<close> returns a record whose login is the queried
  one, provided the login is not a key found on the prototype chain only. On any client
  on which the call is not answered from the cache object, it does so when pages are
  left and \<open>qs\<close> are the pages served from the current cursor on; the requests issued
  are then exactly those for the pages up to the first one that holds the login. In
  both cases the record is the first match on the last page fetched, if any page was
  fetched, and no page fetched before holds the login.\<close>

theorem getInfo_present:
  assumes "list_ex (appears l) qs"
    and "(cache (options s) \<and> \<not> inherited l (cached s)
            \<and> perform_all g ops (constructor opts) = Some s
            \<and> pages_from g (opts_token opts) None qs)
         \<or> (\<not> (has_property l (cached s) \<and> cache (options s))
            \<and> hasNextPage s \<and> pages_from g (token s) (cursor s) qs)"
  shows "\<exists>sp s' calls.
           getInfo g l s = Some (Inr (Record sp), s', calls)
           \<and> login (sponsor sp) = l
           \<and> (\<forall>q\<in>set (butlast (fetched g calls)). \<not> appears l q)
           \<and> (calls \<noteq> [] \<longrightarrow>
                found (List.find (login_matches l) (decoded (last (fetched g calls)))) = Some sp)
           \<and> (\<not> (has_property l (cached s) \<and> cache (options s))
                \<and> hasNextPage s \<and> pages_from g (token s) (cursor s) qs
              \<longrightarrow> length calls = Suc (first_page l qs)
                  \<and> fetched g calls = take (Suc (first_page l qs)) qs)"
proof -
  have "\<exists>sp s' calls. getInfo g l s = Some (Inr (Record sp), s', calls) \<and> login (sponsor sp) = l"
    using assms(2)
  proof
    assume a: "cache (options s) \<and> \<not> inherited l (cached s)
            \<and> perform_all g ops (constructor opts) = Some s
            \<and> pages_from g (opts_token opts) None qs"
    then have "client_inv g opts s" using client_inv_reached [of g ops opts s] by blast
    from getInfo_caching [OF this _ _ assms(1)] a show ?thesis by blast
  next
    assume "\<not> (has_property l (cached s) \<and> cache (options s))
            \<and> hasNextPage s \<and> pages_from g (token s) (cursor s) qs"
    with assms(1) getInfo_ahead [of s g qs l] show ?thesis by blast
  qed
  then obtain sp s' calls where run: "getInfo g l s = Some (Inr (Record sp), s', calls)"
    and same: "login (sponsor sp) = l" by blast
  have ahead: "length calls = Suc (first_page l qs) \<and> fetched g calls = take (Suc (first_page l qs)) qs"
    if "\<not> (has_property l (cached s) \<and> cache (options s))
                \<and> hasNextPage s \<and> pages_from g (token s) (cursor s) qs"
    using getInfo_ahead [of s g qs l] that assms(1) run by auto
  from getInfo_stops [OF run] run same ahead show ?thesis by blast
qed

text \<open>On the two-page source: the client with caching enabled that has fetched both pages
  for \<open>jure\<close>, asked for \<open>alice\<close>; and the client built with \<open>cache: false\<close> that
  has fetched page one, asked for \<open>jure\<close>.\<close>

theorem getInfo_present_witness:
  "list_ex (appears ''alice'') [page_one, page_two]
   \<and> cache (options (exhausted_client True))
   \<and> \<not> inherited ''alice'' (cached (exhausted_client True))
   \<and> perform_all example_source [GetInfo ''jure''] (constructor \<lparr>opts_cache = None, opts_token = ''t''\<rparr>)
       = Some (exhausted_client True)
   \<and> pages_from example_source ''t'' None [page_one, page_two]
   \<and> (\<exists>sp s' calls.
         getInfo example_source ''alice'' (exhausted_client True) = Some (Inr (Record sp), s', calls)
         \<and> login (sponsor sp) = ''alice'')
   \<and> list_ex (appears ''jure'') [page_two]
   \<and> \<not> cache (options (page_one_client False))
   \<and> hasNextPage (page_one_client False)
   \<and> pages_from example_source ''t'' (Some ''c1'') [page_two]
   \<and> (\<exists>sp s' calls.
         getInfo example_source ''jure'' (page_one_client False) = Some (Inr (Record sp), s', calls)
         \<and> login (sponsor sp) = ''jure'' \<and> length calls = 1)"
proof -
  have a1: "list_ex (appears ''alice'') [page_one, page_two]"
    by (simp add: notion_defs client_defs example_defs)
  have a2: "cache (options (exhausted_client True))" by (simp add: exhausted_client_def)
  have a3: "\<not> inherited ''alice'' (cached (exhausted_client True))"
    by (simp add: inherited_def held_def exhausted_client_def)
  have a4: "pages_from example_source
              (opts_token \<lparr>opts_cache = None, opts_token = ''t''\<rparr>) None [page_one, page_two]"
    by (simp add: example_defs)
  from getInfo_present [of "''alice''" "[page_one, page_two]" "exhausted_client True"
      example_source "[GetInfo ''jure'']" "\<lparr>opts_cache = None, opts_token = ''t''\<rparr>"]
    a1 a2 a3 a4 reach_exhausted
  have first: "\<exists>sp s' calls.
         getInfo example_source ''alice'' (exhausted_client True) = Some (Inr (Record sp), s', calls)
         \<and> login (sponsor sp) = ''alice''"
    by blast
  have b1: "list_ex (appears ''jure'') [page_two]"
    by (simp add: notion_defs client_defs example_defs)
  have b2: "\<not> cache (options (page_one_client False))" and b3: "hasNextPage (page_one_client False)"
    by (simp_all add: page_one_client_def)
  have b4: "pages_from example_source (token (page_one_client False)) (cursor (page_one_client False))
              [page_two]"
    by (simp add: example_defs)
  have n: "first_page ''jure'' [page_two] = 0"
    by (simp add: notion_defs client_defs example_defs)
  from getInfo_present [of "''jure''" "[page_two]" "page_one_client False" example_source] b1 b2 b3 b4 n
  have second: "\<exists>sp s' calls.
         getInfo example_source ''jure'' (page_one_client False) = Some (Inr (Record sp), s', calls)
         \<and> login (sponsor sp) = ''jure'' \<and> length calls = 1"
    by auto
  have "pages_from example_source ''t'' None [page_one, page_two]"
    and "pages_from example_source ''t'' (Some ''c1'') [page_two]"
    by (simp_all add: example_defs)
  with a1 a2 a3 reach_exhausted first b1 b2 b3 second show ?thesis by blast
qed

text \<open>Claim C1 as stated fails on a client built with \<open>cache: false\<close>: \<open>alice\<close> is on page
  one of the source, the lookup of \<open>jure\<close> moves the shared cursor past both pages, and
  the lookup of \<open>alice\<close> that follows returns \<open>null\<close>.\<close>

theorem getInfo_present_counterexample:
  "appears ''alice'' page_one
   \<and> pages_from example_source ''t'' None [page_one, page_two]
   \<and> getInfo example_source ''jure'' (constructor \<lparr>opts_cache = Some False, opts_token = ''t''\<rparr>)
       = Some (Inr (Record (example_record ''e2'' ''jure'')), exhausted_client False,
               [example_request None, example_request (Some ''c1'')])
   \<and> getInfo example_source ''alice'' (exhausted_client False)
       = Some (Inr Null, exhausted_client False, [])"
  by (simp add: notion_defs client_defs example_defs find_loop.simps)

section \<open>Lookups on the two-page source\<close>

lemma jure_lookup:
  "getInfo example_source ''jure'' (constructor \<lparr>opts_cache = None, opts_token = ''t''\<rparr>)
     = Some (Inr (Record (example_record ''e2'' ''jure'')), exhausted_client True,
             [example_request None, example_request (Some ''c1'')])"
  by (simp add: client_defs example_defs find_loop.simps)

lemma jure_lookup_uncached:
  "getInfo example_source ''jure'' (page_one_client False)
     = Some (Inr (Record (example_record ''e2'' ''jure'')), exhausted_client False,
             [example_request (Some ''c1'')])"
  by (simp add: client_defs example_defs find_loop.simps)

lemma alice_lookup_uncached:
  "getInfo example_source ''alice'' (page_one_client False)
     = Some (Inr Null, exhausted_client False, [example_request (Some ''c1'')])"
  by (simp add: client_defs example_defs find_loop.simps)


lemma cache_inv_page_one_client: "cache_inv (cached (page_one_client False))"
  by (auto simp: cache_inv_def held_def page_one_client_def example_record_def split: if_splits)

section \<open>Keys inherited from \<open>Object.prototype\<close>\<close>

text \<open>Apart from the cache read, a login that no page holds is answered with \<open>null\<close>
  once the pages are exhausted: the loop ends at the page that reports no next page.\<close>

lemma getInfo_absent_uncached:
  assumes "hasNextPage s" and "pages_from g (token s) (cursor s) qs" and "qs \<noteq> []"
    and "\<not> page_hasNextPage (pageInfo (sponsorshipsAsMaintainer (viewer (last qs))))"
    and "\<not> list_ex (appears l) qs"
    and "\<not> (has_property l (cached s) \<and> cache (options s))"
  shows "\<exists>s' calls. getInfo g l s = Some (Inr Null, s', calls) \<and> fetched g calls = qs
           \<and> length calls = length qs"
  using find_loop_absent [OF assms(1-5), of "[]"] assms(6)
  by (auto simp: getInfo_def find_def)

text \<open>Claim C2 at the login \<open>constructor\<close>, on a new client with the default options.
  No page of the source holds this login. The cache object is empty, but
  \<open>"constructor" in {}\<close> is true, since \<open>in\<close> follows the prototype chain, so
  \<open>find\<close> takes the cache branch: \<open>getInfo\<close> returns the inherited member of
  \<open>Object.prototype\<close> instead of \<open>null\<close>, without a single request, and \<open>isSponsor\<close>
  answers \<open>true\<close>.\<close>

theorem getInfo_inherited_key:
  "\<not> list_ex (appears ''constructor'') [page_one, page_two]
   \<and> pages_from example_source ''t'' None [page_one, page_two]
   \<and> getInfo example_source ''constructor'' (constructor \<lparr>opts_cache = None, opts_token = ''t''\<rparr>)
       = Some (Inr (ObjectPrototypeMember ''constructor''),
               constructor \<lparr>opts_cache = None, opts_token = ''t''\<rparr>, [])
   \<and> isSponsor example_source ''constructor'' (constructor \<lparr>opts_cache = None, opts_token = ''t''\<rparr>)
       = Some (Inr True, constructor \<lparr>opts_cache = None, opts_token = ''t''\<rparr>, [])"
  by (simp add: notion_defs client_defs example_defs)

section \<open>Cache hits\<close>

text \<open>Claim C3. With caching enabled and a record held under the login, \<open>getInfo\<close>
  returns that record, leaves the client as it was and issues no request; a second call
  made on the client returned by the first one gives the same record, the same client
  and again no request.\<close>

theorem getInfo_cached:
  assumes "cache (options s)" and "held (cached s) l = Some r"
  shows "getInfo g l s = Some (Inr (Record r), s, [])
         \<and> Option.bind (getInfo g l s) (\<lambda>(res, s', calls). getInfo g l s')
             = Some (Inr (Record r), s, [])"
  using assms held_get_property [OF assms(2)] by (simp add: getInfo_def find_def)

text \<open>The exhausted client with caching enabled, asked for \<open>alice\<close>.\<close>

theorem getInfo_cached_witness:
  "cache (options (exhausted_client True))
   \<and> held (cached (exhausted_client True)) ''alice'' = Some (example_record ''e1'' ''alice'')
   \<and> getInfo example_source ''alice'' (exhausted_client True)
       = Some (Inr (Record (example_record ''e1'' ''alice'')), exhausted_client True, [])
   \<and> Option.bind (getInfo example_source ''alice'' (exhausted_client True))
         (\<lambda>(res, s', calls). getInfo example_source ''alice'' s')
       = Some (Inr (Record (example_record ''e1'' ''alice'')), exhausted_client True, [])"
proof -
  have h1: "cache (options (exhausted_client True))" by (simp add: exhausted_client_def)
  have h2: "held (cached (exhausted_client True)) ''alice'' = Some (example_record ''e1'' ''alice'')"
    by (simp add: exhausted_client_def held_def)
  from getInfo_cached [OF h1 h2, of example_source] h1 h2 show ?thesis by simp
qed

section \<open>Pagination state\<close>

text \<open>Claim C4. When \<open>getInfo\<close> returns, whatever it returns (a record found on the last
  page fetched, \<open>null\<close>, or a rejection), the has-next-page flag and the cursor of the
  client are those reported by the last page fetched successfully during the call, and
  are unchanged when no page was fetched. Within one iteration both are set from the
  page whether or not the scan of that page finds the login.\<close>

theorem pagination_state:
  assumes "getInfo g l s = Some (res, s', calls)"
  shows "(if fetched g calls = [] then hasNextPage s' = hasNextPage s \<and> cursor s' = cursor s
          else hasNextPage s' = page_hasNextPage (pageInfo (sponsorshipsAsMaintainer (viewer (last (fetched g calls)))))
               \<and> cursor s' = Some (endCursor (pageInfo (sponsorshipsAsMaintainer (viewer (last (fetched g calls)))))))
         \<and> (\<forall>t q. hasNextPage (snd (process_page l t q))
                     = page_hasNextPage (pageInfo (sponsorshipsAsMaintainer (viewer q)))
                  \<and> cursor (snd (process_page l t q))
                     = Some (endCursor (pageInfo (sponsorshipsAsMaintainer (viewer q)))))"
proof (cases "has_property l (cached s) \<and> cache (options s)")
  case True
  with assms have "s' = s" and "calls = []" by (simp_all add: getInfo_def find_def)
  then show ?thesis by (simp add: process_page_snd)
next
  case False
  with assms have "find_loop g l s [] = Some (res, s', calls)" by (simp add: getInfo_def find_def)
  from find_loop_pagination [OF this] show ?thesis by (simp add: process_page_snd)
qed

text \<open>A new client asked for \<open>jure\<close>: the record is found on page two, and the client
  carries the flag and the end cursor of page two.\<close>

theorem pagination_state_witness:
  "getInfo example_source ''jure'' (constructor \<lparr>opts_cache = None, opts_token = ''t''\<rparr>)
     = Some (Inr (Record (example_record ''e2'' ''jure'')), exhausted_client True,
             [example_request None, example_request (Some ''c1'')])
   \<and> fetched example_source [example_request None, example_request (Some ''c1'')] = [page_one, page_two]
   \<and> hasNextPage (exhausted_client True) = page_hasNextPage (pageInfo (sponsorshipsAsMaintainer (viewer page_two)))
   \<and> cursor (exhausted_client True) = Some (endCursor (pageInfo (sponsorshipsAsMaintainer (viewer page_two))))"
proof -
  have f: "fetched example_source [example_request None, example_request (Some ''c1'')] = [page_one, page_two]"
    by (simp add: example_source_def example_request_def)
  from pagination_state [OF jure_lookup] f jure_lookup show ?thesis by simp
qed

section \<open>Caching disabled\<close>

lemma getInfo_cached_after:
  assumes "getInfo g l s = Some (res, s', calls)"
  shows "cached s' = foldl cache_page (cached s) (fetched g calls)"
proof (cases "has_property l (cached s) \<and> cache (options s)")
  case True
  with assms have "s' = s" and "calls = []" by (simp_all add: getInfo_def find_def)
  then show ?thesis by simp
next
  case False
  with assms have "find_loop g l s [] = Some (res, s', calls)" by (simp add: getInfo_def find_def)
  then show ?thesis by (rule find_loop_cached)
qed

lemma reach_page_one_uncached:
  "perform_all example_source [GetInfo ''alice''] (constructor \<lparr>opts_cache = Some False, opts_token = ''t''\<rparr>)
     = Some (page_one_client False)"
  by (simp add: client_defs example_defs find_loop.simps)

text \<open>Claim C5. Take a client built by the constructor and used through any sequence of
  calls. If it was built with \<open>cache: false\<close>, its cache option is off, a \<open>getInfo\<close>
  call is the pagination loop and nothing else, whatever the cache object holds, and when
  pages are left its first request is the one for the current cursor. With either
  setting, the cache object after the call is the one before it with the records of
  every fetched page stored page by page: under each key it holds the last decoded
  record with that login among the fetched pages, and what it held before when there is
  none; so every decoded record of a fetched page finds a record with its login under
  its login. The callback itself puts each decoded record under its login, replacing
  what was there.\<close>

theorem cache_disabled:
  assumes "perform_all g ops (constructor opts) = Some s"
    and "getInfo g l s = Some (res, s', calls)"
  shows "(opts_cache opts = Some False \<longrightarrow>
            \<not> cache (options s)
            \<and> getInfo g l s = find_loop g l s []
            \<and> (hasNextPage s \<longrightarrow> calls \<noteq> [] \<and> hd calls = request s))
         \<and> cached s' = foldl cache_page (cached s) (fetched g calls)
         \<and> (\<forall>k. held (cached s') k
                  = stored k (concat (map decoded (fetched g calls))) (held (cached s) k))
         \<and> (\<forall>q\<in>set (fetched g calls). \<forall>sp. Some sp \<in> set (decoded q)
               \<longrightarrow> (\<exists>r. held (cached s') (login (sponsor sp)) = Some r
                        \<and> login (sponsor r) = login (sponsor sp)))
         \<and> (\<forall>c e sp. own c ''__proto__'' = None \<and> sponsorshipFromEdge e = Some sp
               \<longrightarrow> held (snd (cache_edge c e)) (login (sponsor sp)) = Some sp)"
proof -
  from assms(1) have inv: "client_inv g opts s" by (rule client_inv_reached)
  then have own: "own (cached s) ''__proto__'' = None"
    and opt: "cache (options s) = withdefault True (opts_cache opts)"
    by (simp_all add: client_inv_def)
  from assms(2) have "find g l s = Some (res, s', calls)" by (simp add: getInfo_def)
  with inv have "client_inv g opts s'" by (rule client_inv_find)
  then have keys: "cache_inv (cached s')" by (simp add: client_inv_def)
  have population: "cached s' = foldl cache_page (cached s) (fetched g calls)"
    using assms(2) by (rule getInfo_cached_after)
  have exact: "\<forall>k. held (cached s') k
                  = stored k (concat (map decoded (fetched g calls))) (held (cached s) k)"
    unfolding population using own by (simp add: held_foldl)
  have every: "\<forall>q\<in>set (fetched g calls). \<forall>sp. Some sp \<in> set (decoded q)
               \<longrightarrow> (\<exists>r. held (cached s') (login (sponsor sp)) = Some r
                        \<and> login (sponsor r) = login (sponsor sp))"
  proof (intro ballI allI impI)
    fix q sp assume "q \<in> set (fetched g calls)" and "Some sp \<in> set (decoded q)"
    then have "held (cached s') (login (sponsor sp)) \<noteq> None"
      unfolding population by (rule held_foldl_stored)
    then obtain r where r: "held (cached s') (login (sponsor sp)) = Some r" by auto
    with keys have "login (sponsor r) = login (sponsor sp)" by (simp add: cache_inv_def)
    with r show "\<exists>r. held (cached s') (login (sponsor sp)) = Some r
                        \<and> login (sponsor r) = login (sponsor sp)" by simp
  qed
  have insertion: "\<forall>c e sp. own c ''__proto__'' = None \<and> sponsorshipFromEdge e = Some sp
               \<longrightarrow> held (snd (cache_edge c e)) (login (sponsor sp)) = Some sp"
    by (simp add: held_cache_edge login_matches_def)
  have traversal: "\<not> cache (options s) \<and> getInfo g l s = find_loop g l s []
            \<and> (hasNextPage s \<longrightarrow> calls \<noteq> [] \<and> hd calls = request s)"
    if off: "opts_cache opts = Some False"
  proof -
    from off opt have no: "\<not> cache (options s)" by (simp add: withdefault_def)
    then have same: "getInfo g l s = find_loop g l s []" by (simp add: getInfo_def find_def)
    with assms(2) have "find_loop g l s [] = Some (res, s', calls)" by simp
    from find_loop_first_request [OF this] no same show ?thesis by simp
  qed
  from traversal population exact every insertion show ?thesis by blast
qed

text \<open>A client built with \<open>cache: false\<close> that has fetched page one for \<open>alice\<close>, asked
  for \<open>alice\<close> again: it fetches page two all the same, stores \<open>jure\<close> and keeps
  \<open>alice\<close>.\<close>

theorem cache_disabled_witness:
  "perform_all example_source [GetInfo ''alice''] (constructor \<lparr>opts_cache = Some False, opts_token = ''t''\<rparr>)
     = Some (page_one_client False)
   \<and> getInfo example_source ''alice'' (page_one_client False)
     = Some (Inr Null, exhausted_client False, [example_request (Some ''c1'')])
   \<and> held (cached (page_one_client False)) ''alice'' = Some (example_record ''e1'' ''alice'')
   \<and> \<not> cache (options (page_one_client False))
   \<and> hasNextPage (page_one_client False)
   \<and> hd [example_request (Some ''c1'')] = request (page_one_client False)
   \<and> fetched example_source [example_request (Some ''c1'')] = [page_two]
   \<and> decoded page_two = [Some (example_record ''e2'' ''jure'')]
   \<and> held (cached (exhausted_client False)) ''jure'' = Some (example_record ''e2'' ''jure'')
   \<and> held (cached (exhausted_client False)) ''alice'' = Some (example_record ''e1'' ''alice'')"
proof -
  have off: "opts_cache \<lparr>opts_cache = Some False, opts_token = ''t''\<rparr> = Some False" by simp
  have more: "hasNextPage (page_one_client False)"
    and seen: "held (cached (page_one_client False)) ''alice'' = Some (example_record ''e1'' ''alice'')"
    and none: "held (cached (page_one_client False)) ''jure'' = None"
    by (simp_all add: page_one_client_def held_def)
  have f: "fetched example_source [example_request (Some ''c1'')] = [page_two]"
    by (simp add: example_source_def example_request_def)
  have d: "decoded page_two = [Some (example_record ''e2'' ''jure'')]"
    by (simp add: notion_defs client_defs example_defs)
  have st: "stored ''jure'' [Some (example_record ''e2'' ''jure'')] None = Some (example_record ''e2'' ''jure'')"
    "stored ''alice'' [Some (example_record ''e2'' ''jure'')] (Some (example_record ''e1'' ''alice''))
       = Some (example_record ''e1'' ''alice'')"
    by (simp_all add: stored_def login_matches_def example_record_def)
  from cache_disabled [OF reach_page_one_uncached alice_lookup_uncached] off more
  have "\<not> cache (options (page_one_client False))"
    and "hd [example_request (Some ''c1'')] = request (page_one_client False)"
    and "\<forall>k. held (cached (exhausted_client False)) k
            = stored k (concat (map decoded (fetched example_source [example_request (Some ''c1'')])))
                (held (cached (page_one_client False)) k)"
    by blast+
  then show ?thesis
    using reach_page_one_uncached alice_lookup_uncached seen none more f d st by simp
qed

section \<open>Records without a sponsor login\<close>

lemma undecodable:
  assumes "sponsorEntity (node e) = None
           \<or> (\<exists>ent. sponsorEntity (node e) = Some ent \<and> entity_login ent = None)"
  shows "sponsorshipFromEdge e = None"
  using assms by (auto simp: sponsorshipFromEdge_def entity_field_def)

text \<open>Claim C6. An edge whose sponsor entity is absent, or present without a login, decodes
  to \<open>null\<close>; the callback of \<open>edges.map\<close> leaves the cache object as it is; the
  decoded value matches no login; and \<open>getInfo\<close> and \<open>isSponsor\<close> behave in every
  respect (outcome, client afterwards, requests issued, or not returning at all) as they
  do on a source whose pages do not contain the edge.\<close>

theorem dropped_record:
  assumes "sponsorEntity (node e) = None
           \<or> (\<exists>ent. sponsorEntity (node e) = Some ent \<and> entity_login ent = None)"
  shows "sponsorshipFromEdge e = None
         \<and> cache_edge c e = (None, c)
         \<and> \<not> login_matches l (sponsorshipFromEdge e)
         \<and> getInfo (without_edge e g) l s = getInfo g l s
         \<and> isSponsor (without_edge e g) l s = isSponsor g l s"
proof -
  from assms have none: "sponsorshipFromEdge e = None" by (rule undecodable)
  then have "find (without_edge e g) l s = find g l s"
    by (simp add: find_def find_loop_without_edge)
  with none show ?thesis
    by (simp add: cache_edge_def login_matches_def getInfo_def isSponsor_def)
qed

text \<open>The record without sponsor entity on page one of the two-page source.\<close>

theorem dropped_record_witness:
  "sponsorEntity (node anonymous_edge) = None
   \<and> sponsorshipFromEdge anonymous_edge = None
   \<and> cache_edge empty_object anonymous_edge = (None, empty_object)
   \<and> \<not> login_matches ''alice'' (sponsorshipFromEdge anonymous_edge)
   \<and> getInfo (without_edge anonymous_edge example_source) ''alice''
         (constructor \<lparr>opts_cache = None, opts_token = ''t''\<rparr>)
       = getInfo example_source ''alice'' (constructor \<lparr>opts_cache = None, opts_token = ''t''\<rparr>)
   \<and> getInfo example_source ''alice'' (constructor \<lparr>opts_cache = None, opts_token = ''t''\<rparr>)
       = Some (Inr (Record (example_record ''e1'' ''alice'')), page_one_client True, [example_request None])"
proof -
  have h: "sponsorEntity (node anonymous_edge) = None"
    by (simp add: anonymous_edge_def example_edge_def)
  then have h': "sponsorEntity (node anonymous_edge) = None
           \<or> (\<exists>ent. sponsorEntity (node anonymous_edge) = Some ent \<and> entity_login ent = None)"
    by simp
  have run: "getInfo example_source ''alice'' (constructor \<lparr>opts_cache = None, opts_token = ''t''\<rparr>)
       = Some (Inr (Record (example_record ''e1'' ''alice'')), page_one_client True, [example_request None])"
    by (simp add: client_defs example_defs find_loop.simps)
  from dropped_record [OF h', of empty_object "''alice''" example_source
      "constructor \<lparr>opts_cache = None, opts_token = ''t''\<rparr>"] h run
  show ?thesis by (simp add: login_matches_def)
qed

section \<open>Email precedence\<close>

text \<open>Claim C7, as amended. The decoded email is the organization-level email when that one
  is present and not the empty string; when it is absent or the empty string, the decoded
  email is the user-level email, absent when there is none.\<close>

theorem email_precedence:
  assumes "sponsorshipFromEdge e = Some sp" and "sponsorEntity (node e) = Some ent"
  shows "(\<forall>org. orgEmail ent = Some org \<and> org \<noteq> [] \<longrightarrow> email (sponsor sp) = Some org)
         \<and> (orgEmail ent = None \<or> orgEmail ent = Some [] \<longrightarrow> email (sponsor sp) = userEmail ent)"
  using assms
  by (auto simp: sponsorshipFromEdge_def entity_field_def js_or_def split: option.splits)

text \<open>An organization with both email fields filled.\<close>

theorem email_precedence_witness:
  "sponsorshipFromEdge both_emails_edge
     = Some \<lparr>sponsorship_id = ''e3'', createdAt = ''2020-02-02'',
             sponsor = \<lparr>login = ''acme'', email = Some ''org@example.org''\<rparr>,
             public = True, tier = example_tier\<rparr>
   \<and> map_option orgEmail (sponsorEntity (node both_emails_edge)) = Some (Some ''org@example.org'')
   \<and> map_option userEmail (sponsorEntity (node both_emails_edge)) = Some (Some ''user@example.org'')"
proof -
  let ?ent = "\<lparr>typename = ''Organization'', entity_login = Some ''acme'',
              userEmail = Some ''user@example.org'', orgEmail = Some ''org@example.org''\<rparr>"
  have ent: "sponsorEntity (node both_emails_edge) = Some ?ent"
    by (simp add: both_emails_edge_def example_edge_def)
  obtain sp where sp: "sponsorshipFromEdge both_emails_edge = Some sp"
    by (simp add: both_emails_edge_def example_edge_def sponsorshipFromEdge_def entity_field_def)
  from email_precedence [OF sp ent] have "email (sponsor sp) = Some ''org@example.org''" by simp
  moreover from sp have "sp = \<lparr>sponsorship_id = ''e3'', createdAt = ''2020-02-02'',
             sponsor = \<lparr>login = ''acme'', email = email (sponsor sp)\<rparr>,
             public = True, tier = example_tier\<rparr>"
    by (auto simp: both_emails_edge_def example_edge_def sponsorshipFromEdge_def entity_field_def
        example_tier_def)
  ultimately show ?thesis using sp ent by simp
qed

text \<open>Claim C7 as stated fails when both fields are present and the organization-level one
  is the empty string, which \<open>||\<close> treats as false: the decoded email is the user-level
  one.\<close>

theorem email_precedence_counterexample:
  "map_option orgEmail (sponsorEntity (node empty_org_email_edge)) = Some (Some [])
   \<and> map_option userEmail (sponsorEntity (node empty_org_email_edge)) = Some (Some ''user@example.org'')
   \<and> sponsorshipFromEdge empty_org_email_edge
     = Some \<lparr>sponsorship_id = ''e4'', createdAt = ''2020-02-02'',
             sponsor = \<lparr>login = ''acme'', email = Some ''user@example.org''\<rparr>,
             public = True, tier = example_tier\<rparr>"
  by (simp add: empty_org_email_edge_def example_edge_def sponsorshipFromEdge_def entity_field_def
      js_or_def example_tier_def)

section \<open>Flush\<close>

lemma held_empty_object: "held empty_object k = None"
  by (simp add: held_def empty_object_def)




section \<open>The cache-key invariant\<close>

lemma find_cache_inv:
  assumes "find g l s = Some (res, s', calls)" and "cache_inv (cached s)"
  shows "cache_inv (cached s')"
proof (cases "has_property l (cached s) \<and> cache (options s)")
  case True
  with assms(1) have "s' = s" by (simp add: find_def)
  with assms(2) show ?thesis by simp
next
  case False
  with assms(1) have "find_loop g l s [] = Some (res, s', calls)" by (simp add: find_def)
  then have "cached s' = foldl cache_page (cached s) (fetched g calls)" by (rule find_loop_cached)
  with assms(2) show ?thesis by (simp add: cache_inv_foldl)
qed

text \<open>Claim C9. Every record held by the cache object is held under its own login: this is
  so on a new client and after \<open>flush\<close>, and \<open>getInfo\<close> and \<open>isSponsor\<close> keep it.\<close>

theorem cache_key_invariant:
  "cache_inv (cached (constructor opts))
   \<and> cache_inv (cached (flush s))
   \<and> (cache_inv (cached s) \<and> getInfo g l s = Some (res, s', calls) \<longrightarrow> cache_inv (cached s'))
   \<and> (cache_inv (cached s) \<and> isSponsor g l s = Some (b, s'', calls') \<longrightarrow> cache_inv (cached s''))"
proof -
  have empty: "cache_inv empty_object" by (simp add: cache_inv_def held_empty_object)
  then have "cache_inv (cached (constructor opts))" and "cache_inv (cached (flush s))"
    by (simp_all add: constructor_def flush_def)
  moreover have "cache_inv (cached s')"
    if "cache_inv (cached s)" and "getInfo g l s = Some (res, s', calls)"
    using that find_cache_inv [of g l s res s' calls] by (simp add: getInfo_def)
  moreover have "cache_inv (cached s'')"
    if inv: "cache_inv (cached s)" and run: "isSponsor g l s = Some (b, s'', calls')"
  proof -
    from run obtain r where "find g l s = Some (r, s'', calls')"
      by (auto simp: isSponsor_def)
    from find_cache_inv [OF this inv] show ?thesis .
  qed
  ultimately show ?thesis by blast
qed

text \<open>The client that has fetched page one, asked for \<open>jure\<close>.\<close>

theorem cache_key_invariant_witness:
  "cache_inv (cached (page_one_client False))
   \<and> getInfo example_source ''jure'' (page_one_client False)
     = Some (Inr (Record (example_record ''e2'' ''jure'')), exhausted_client False,
             [example_request (Some ''c1'')])
   \<and> cache_inv (cached (exhausted_client False))
   \<and> held (cached (exhausted_client False)) ''jure'' = Some (example_record ''e2'' ''jure'')
   \<and> login (sponsor (example_record ''e2'' ''jure'')) = ''jure''"
proof -
  from cache_key_invariant [of _ "page_one_client False" example_source "''jure''"
      "Inr (Record (example_record ''e2'' ''jure''))" "exhausted_client False"
      "[example_request (Some ''c1'')]"]
    cache_inv_page_one_client jure_lookup_uncached
  have "cache_inv (cached (exhausted_client False))" by blast
  moreover have "held (cached (exhausted_client False)) ''jure'' = Some (example_record ''e2'' ''jure'')"
    by (simp add: exhausted_client_def held_def)
  moreover have "login (sponsor (example_record ''e2'' ''jure'')) = ''jure''"
    by (simp add: example_record_def)
  ultimately show ?thesis using cache_inv_page_one_client jure_lookup_uncached by blast
qed

section \<open>The exhausted client\<close>

text \<open>Claim C10. Once the has-next-page flag is false, a call that is not answered from the
  cache branch (caching disabled, or the login not \<open>in\<close> the cache object) returns
  \<open>null\<close>, leaves the client as it is and issues no request, for every transport and
  every login; \<open>flush\<close> sets the flag again and resets the cursor.\<close>

theorem exhausted_returns_null:
  assumes "\<not> hasNextPage s" and "\<not> cache (options s) \<or> \<not> has_property l (cached s)"
  shows "getInfo g l s = Some (Inr Null, s, []) \<and> hasNextPage (flush s) \<and> cursor (flush s) = None"
  using assms by (auto simp: getInfo_def find_def find_loop_exhausted flush_def)

text \<open>The exhausted client built with \<open>cache: false\<close>, asked for \<open>alice\<close>, a login on page
  one of the source.\<close>

theorem exhausted_returns_null_witness:
  "\<not> hasNextPage (exhausted_client False)
   \<and> \<not> cache (options (exhausted_client False))
   \<and> appears ''alice'' page_one
   \<and> pages_from example_source ''t'' None [page_one, page_two]
   \<and> getInfo example_source ''alice'' (exhausted_client False)
       = Some (Inr Null, exhausted_client False, [])
   \<and> hasNextPage (flush (exhausted_client False))"
proof -
  have h1: "\<not> hasNextPage (exhausted_client False)" by (simp add: exhausted_client_def)
  have off: "\<not> cache (options (exhausted_client False))" by (simp add: exhausted_client_def)
  then have h2: "\<not> cache (options (exhausted_client False))
                 \<or> \<not> has_property ''alice'' (cached (exhausted_client False))" by simp
  have src: "appears ''alice'' page_one \<and> pages_from example_source ''t'' None [page_one, page_two]"
    by (simp add: notion_defs client_defs example_defs)
  from exhausted_returns_null [OF h1 h2, of example_source] h1 off src show ?thesis by simp
qed

end
